theory Spec2Isabelle
  imports Complex_Main "HOL-Library.Multiset" "HOL-Library.AList"
    "HOL-Library.List_Lexorder" "HOL-Library.Char_ord"
begin

section \<open>Data model (types/index.ts)\<close>

text \<open>
  A JavaScript \<open>number\<close> is modelled as a real: the development covers finite numbers
  only (no NaN, no infinities). On finite numbers the sign of \<open>a - b\<close> is the sign of the
  exact difference, which is all a sort comparator uses.

  The optional fields \<open>rank?\<close> and \<open>isTied?\<close> are \<open>None\<close> while undefined.

  Objects are passed by reference in the source and \<open>rank\<close>/\<open>isTied\<close> are written in
  place. The model passes the array of records explicitly and returns it updated; every
  array element stands for an object of its own (the array holds no object twice), and a
  reference to an object of the array is its index in the array.
\<close>

type_synonym number = real

record Player =
  name :: string
  eventScores :: "number list"
  eventSpending :: "number list"
  totalPoints :: number
  totalSpending :: number
  rank :: "nat option"
  isTied :: "bool option"

section \<open>Array.prototype.sort with a comparator\<close>

text \<open>
  ECMAScript specifies \<open>sort\<close> as a stable sort whenever the comparator is a consistent
  comparison function; the result is then unique, whatever algorithm the engine runs.
  The model is the stable insertion sort: an element goes before the first element it
  does not come after.
\<close>

fun insert_by :: "('a \<Rightarrow> 'a \<Rightarrow> number) \<Rightarrow> 'a \<Rightarrow> 'a list \<Rightarrow> 'a list" where
  "insert_by comparefn x [] = [x]"
| "insert_by comparefn x (y # ys) =
     (if comparefn x y \<le> 0 then x # y # ys else y # insert_by comparefn x ys)"

definition array_sort :: "('a \<Rightarrow> 'a \<Rightarrow> number) \<Rightarrow> 'a list \<Rightarrow> 'a list" where
  "array_sort comparefn xs = foldr (insert_by comparefn) xs []"

text \<open>
  The contract of a consistent comparison function: the sign of \<open>comparefn a b\<close> is the
  opposite of the sign of \<open>comparefn b a\<close>, and "does not come after" is transitive.
  \<open>String.prototype.localeCompare\<close> is a platform function; it is a parameter of the
  model, and ECMAScript requires it to satisfy this contract.
\<close>

definition consistent_comparator :: "('a \<Rightarrow> 'a \<Rightarrow> number) \<Rightarrow> bool" where
  "consistent_comparator comparefn \<longleftrightarrow>
     (\<forall>a b. comparefn a b < 0 \<longleftrightarrow> 0 < comparefn b a) \<and>
     (\<forall>a b c. comparefn a b \<le> 0 \<and> comparefn b c \<le> 0 \<longrightarrow> comparefn a c \<le> 0)"

section \<open>Countback (utils/tiebreakers.ts)\<close>

text \<open>\<open>xs[i] || 0\<close>: an index past the end reads \<open>undefined\<close>, which is falsy, as is 0.\<close>

definition at_or_zero :: "number list \<Rightarrow> nat \<Rightarrow> number" where
  "at_or_zero xs i = (if i < length xs \<and> xs ! i \<noteq> 0 then xs ! i else 0)"

text \<open>\<open>eventScores.filter(s => s > 0).sort((a, b) => b - a)\<close>\<close>

definition positive_sorted :: "number list \<Rightarrow> number list" where
  "positive_sorted scores = array_sort (\<lambda>a b. b - a) (filter (\<lambda>s. s > 0) scores)"

text \<open>
  One pass through the body of the \<open>for\<close> loop of \<open>countbackCompare\<close> at index \<open>i\<close>:
  \<open>Some r\<close> when the body returns \<open>r\<close>, \<open>None\<close> when it falls through to the next index.
\<close>

definition countback_body :: "number list \<Rightarrow> number list \<Rightarrow> nat \<Rightarrow> number option" where
  "countback_body p1Scores p2Scores i =
     (let score1 = at_or_zero p1Scores i;
          score2 = at_or_zero p2Scores i
      in if score1 > score2 then Some (-1)
         else if score2 > score1 then Some 1
         else if score1 = score2 \<and> score1 > 0 then
           (let count1 = length (filter (\<lambda>s. s = score1) p1Scores);
                count2 = length (filter (\<lambda>s. s = score2) p2Scores)
            in if count1 > count2 then Some (-1)
               else if count2 > count1 then Some 1
               else None)
         else None)"

function countback_loop :: "number list \<Rightarrow> number list \<Rightarrow> nat \<Rightarrow> nat \<Rightarrow> number" where
  "countback_loop p1Scores p2Scores maxLength i =
     (if i < maxLength then
        (case countback_body p1Scores p2Scores i of
           Some r \<Rightarrow> r
         | None \<Rightarrow> countback_loop p1Scores p2Scores maxLength (i + 1))
      else 0)"
  by pat_completeness auto
termination
  by (relation "measure (\<lambda>(p1Scores, p2Scores, maxLength, i). maxLength - i)") auto

definition countbackCompare :: "Player \<Rightarrow> Player \<Rightarrow> number" where
  "countbackCompare p1 p2 =
     (let p1Scores = positive_sorted (eventScores p1);
          p2Scores = positive_sorted (eventScores p2);
          maxLength = max (length p1Scores) (length p2Scores)
      in countback_loop p1Scores p2Scores maxLength 0)"

text \<open>
  \<open>getScoreFrequency\<close>: a JavaScript \<open>Map\<close> keeps its keys in insertion order and \<open>set\<close> on
  a key already present keeps the key's place; that is an association list under
  \<open>AList.update\<close>. \<open>frequency.get(score) || 0\<close> is 0 for a key not present.
\<close>

definition get_or_zero :: "(number \<times> nat) list \<Rightarrow> number \<Rightarrow> nat" where
  "get_or_zero frequency score = (case map_of frequency score of None \<Rightarrow> 0 | Some c \<Rightarrow> c)"

definition getScoreFrequency :: "Player \<Rightarrow> (number \<times> nat) list" where
  "getScoreFrequency player =
     fold (\<lambda>score frequency.
             if score > 0
             then AList.update score (get_or_zero frequency score + 1) frequency
             else frequency)
          (eventScores player) []"

text \<open>The comparator of \<open>detailedCountback\<close>: score descending, then count descending.\<close>

definition compare_entries :: "number \<times> nat \<Rightarrow> number \<times> nat \<Rightarrow> number" where
  "compare_entries a b =
     (if fst b \<noteq> fst a then fst b - fst a else real (snd b) - real (snd a))"

text \<open>\<open>freq[i] || [0, 0]\<close>\<close>

definition entry_or_zero :: "(number \<times> nat) list \<Rightarrow> nat \<Rightarrow> number \<times> nat" where
  "entry_or_zero freq i = (if i < length freq then freq ! i else (0, 0))"

definition detailed_body ::
  "(number \<times> nat) list \<Rightarrow> (number \<times> nat) list \<Rightarrow> nat \<Rightarrow> number option" where
  "detailed_body freq1 freq2 i =
     (let (score1, count1) = entry_or_zero freq1 i;
          (score2, count2) = entry_or_zero freq2 i
      in if score1 > score2 then Some (-1)
         else if score2 > score1 then Some 1
         else if count1 > count2 then Some (-1)
         else if count2 > count1 then Some 1
         else None)"

function detailed_loop ::
  "(number \<times> nat) list \<Rightarrow> (number \<times> nat) list \<Rightarrow> nat \<Rightarrow> nat \<Rightarrow> number" where
  "detailed_loop freq1 freq2 maxLength i =
     (if i < maxLength then
        (case detailed_body freq1 freq2 i of
           Some r \<Rightarrow> r
         | None \<Rightarrow> detailed_loop freq1 freq2 maxLength (i + 1))
      else 0)"
  by pat_completeness auto
termination
  by (relation "measure (\<lambda>(freq1, freq2, maxLength, i). maxLength - i)") auto

definition detailedCountback :: "Player \<Rightarrow> Player \<Rightarrow> number" where
  "detailedCountback p1 p2 =
     (let freq1 = array_sort compare_entries (getScoreFrequency p1);
          freq2 = array_sort compare_entries (getScoreFrequency p2);
          maxLength = max (length freq1) (length freq2)
      in detailed_loop freq1 freq2 maxLength 0)"

definition arePlayersTied :: "Player \<Rightarrow> Player \<Rightarrow> bool" where
  "arePlayersTied p1 p2 =
     (if totalPoints p1 \<noteq> totalPoints p2 then False
      else if totalSpending p1 \<noteq> totalSpending p2 then False
      else if countbackCompare p1 p2 \<noteq> 0 then False
      else True)"

text \<open>
  \<open>findTieGroups\<close>. A group holds references to player objects; in the model a reference
  is the index of the object in \<open>players\<close>. The inner loop runs \<open>j\<close> from \<open>i + 1\<close>, the
  outer loop runs \<open>i\<close> from 0; \<open>processed\<close> is the set of names seen.
\<close>

function tie_inner ::
  "Player list \<Rightarrow> Player \<Rightarrow> nat \<Rightarrow> nat list \<times> string set \<Rightarrow> nat list \<times> string set" where
  "tie_inner players player j (grp, processed) =
     (if j < length players then
        tie_inner players player (j + 1)
          (let otherPlayer = players ! j
           in if name otherPlayer \<in> processed then (grp, processed)
              else if arePlayersTied player otherPlayer
                   then (grp @ [j], insert (name otherPlayer) processed)
                   else (grp, processed))
      else (grp, processed))"
  by pat_completeness auto
termination
  by (relation "measure (\<lambda>(players, player, j, st). length players - j)") auto

function tie_outer ::
  "Player list \<Rightarrow> nat \<Rightarrow> nat list list \<times> string set \<Rightarrow> nat list list" where
  "tie_outer players i (tieGroups, processed) =
     (if i < length players then
        tie_outer players (i + 1)
          (let player = players ! i
           in if name player \<in> processed then (tieGroups, processed)
              else
                (let (grp, processed') =
                       tie_inner players player (i + 1) ([i], insert (name player) processed)
                 in if length grp > 1 then (tieGroups @ [grp], processed')
                    else (tieGroups, processed')))
      else tieGroups)"
  by pat_completeness auto
termination
  by (relation "measure (\<lambda>(players, i, st). length players - i)") auto

definition findTieGroups :: "Player list \<Rightarrow> nat list list" where
  "findTieGroups players = tie_outer players 0 ([], {})"

section \<open>The sorter (LeaderboardSorter)\<close>

text \<open>The comparator passed to \<open>sort\<close> in \<open>sortPlayers\<close>.\<close>

definition comparePlayers :: "(string \<Rightarrow> string \<Rightarrow> number) \<Rightarrow> Player \<Rightarrow> Player \<Rightarrow> number" where
  "comparePlayers localeCompare a b =
     (if totalPoints a \<noteq> totalPoints b then totalPoints b - totalPoints a
      else if totalSpending a \<noteq> totalSpending b then totalSpending a - totalSpending b
      else
        (let countbackResult = countbackCompare a b
         in if countbackResult \<noteq> 0 then countbackResult
            else localeCompare (name a) (name b)))"

text \<open>
  \<open>assignRanks\<close>: the loop state is the array and \<open>currentRank\<close>. Inside the loop
  \<open>i < length players\<close>, so \<open>length players - 1\<close> does not truncate.
\<close>

function assignRanks_loop :: "Player list \<Rightarrow> nat \<Rightarrow> nat \<Rightarrow> Player list" where
  "assignRanks_loop players i currentRank =
     (if i < length players then
        (let players' = players[i := (players ! i)\<lparr>rank := Some currentRank\<rparr>]
         in assignRanks_loop players' (i + 1)
              (if i < length players' - 1 then
                 (let current = players' ! i; next = players' ! (i + 1)
                  in if totalPoints current \<noteq> totalPoints next then i + 2
                     else if totalSpending current \<noteq> totalSpending next
                             \<or> countbackCompare current next \<noteq> 0 then i + 2
                     else currentRank)
               else currentRank))
      else players)"
  by pat_completeness auto
termination
  by (relation "measure (\<lambda>(players, i, currentRank). length players - i)") auto

definition assignRanks :: "Player list \<Rightarrow> Player list" where
  "assignRanks players = assignRanks_loop players 0 1"

definition markTiedPlayers :: "Player list \<Rightarrow> Player list" where
  "markTiedPlayers players =
     (let tieGroups = findTieGroups players
      in fold (\<lambda>grp ps. fold (\<lambda>k ps. ps[k := (ps ! k)\<lparr>isTied := Some True\<rparr>]) grp ps)
           tieGroups players)"

definition sortPlayers :: "(string \<Rightarrow> string \<Rightarrow> number) \<Rightarrow> Player list \<Rightarrow> Player list" where
  "sortPlayers localeCompare players =
     (let sorted = array_sort (comparePlayers localeCompare) players
      in markTiedPlayers (assignRanks sorted))"

section \<open>The caller (app.ts)\<close>

text \<open>
  The steps of \<open>main\<close> between parsing and printing: an empty parse result throws
  \<open>Error('No players found in the leaderboard')\<close>, anything else goes to
  \<open>sortPlayers\<close>.
\<close>

datatype error = NoPlayersFound

definition main_sort ::
  "(string \<Rightarrow> string \<Rightarrow> number) \<Rightarrow> Player list \<Rightarrow> error + Player list" where
  "main_sort localeCompare players =
     (if length players = 0 then Inl NoPlayersFound
      else Inr (sortPlayers localeCompare players))"

section \<open>Reference order for the proofs\<close>

text \<open>
  Lexicographic three-way comparison of two score lists, the longer list winning over
  its proper prefix. The loop of \<open>countbackCompare\<close> is shown to compute it on the
  descending lists of positive scores.
\<close>

fun lex_compare :: "number list \<Rightarrow> number list \<Rightarrow> number" where
  "lex_compare [] [] = 0"
| "lex_compare (x # xs) [] = -1"
| "lex_compare [] (y # ys) = 1"
| "lex_compare (x # xs) (y # ys) =
     (if x > y then -1 else if y > x then 1 else lex_compare xs ys)"


text \<open>The score list a frequency table stands for: every score as often as counted.\<close>

definition expand_entries :: "(number \<times> nat) list \<Rightarrow> number list" where
  "expand_entries freq = concat (map (\<lambda>(score, count). replicate count score) freq)"

section \<open>Vocabulary of the claims\<close>

text \<open>A record with the two fields the sorter writes blanked out.\<close>

definition unranked :: "Player \<Rightarrow> Player" where
  "unranked p = p\<lparr>rank := None, isTied := None\<rparr>"

text \<open>\<open>outranks q p\<close>: \<open>q\<close> is ahead of \<open>p\<close> on one of the first three levels of the
  order (total points, then total spending, then countback), the higher levels being
  equal. The name is not looked at.\<close>

definition outranks :: "Player \<Rightarrow> Player \<Rightarrow> bool" where
  "outranks q p \<longleftrightarrow>
     totalPoints q > totalPoints p \<or>
     (totalPoints q = totalPoints p \<and> totalSpending q < totalSpending p) \<or>
     (totalPoints q = totalPoints p \<and> totalSpending q = totalSpending p \<and>
      countbackCompare q p < 0)"

text \<open>The profile with exactly the zero-valued entries discarded, for comparison with
  \<open>positive_sorted\<close>, the profile the code builds.\<close>

definition nonzero_sorted :: "number list \<Rightarrow> number list" where
  "nonzero_sorted scores = array_sort (\<lambda>a b. b - a) (filter (\<lambda>s. s \<noteq> 0) scores)"

text \<open>The contract violations that the model can express (numbers are finite in it): an
  empty input, or a competitor whose score and spending arrays differ in length.\<close>

definition contract_violation :: "Player list \<Rightarrow> bool" where
  "contract_violation players \<longleftrightarrow>
     players = [] \<or> (\<exists>p\<in>set players. length (eventScores p) \<noteq> length (eventSpending p))"

text \<open>A tie group of an array: a set of positions whose competitors are mutually fully
  tied, and that no further position can join.\<close>

definition tie_group :: "Player list \<Rightarrow> nat set \<Rightarrow> bool" where
  "tie_group ps S \<longleftrightarrow>
     S \<subseteq> {..<length ps} \<and>
     (\<forall>i\<in>S. \<forall>j\<in>S. arePlayersTied (ps ! i) (ps ! j)) \<and>
     (\<forall>k<length ps. (\<forall>i\<in>S. arePlayersTied (ps ! i) (ps ! k)) \<longrightarrow> k \<in> S)"

section \<open>The name order\<close>

text \<open>
  Two consistent comparison functions stand in for \<open>localeCompare\<close> where a theorem is
  exercised at a concrete input. The order by character codes returns 0 on equal strings
  only. The second order skips the control character U+0001, as the collation behind
  \<open>localeCompare\<close> skips ignorable characters, and so returns 0 on some different
  strings.
\<close>

definition ordinal_compare :: "string \<Rightarrow> string \<Rightarrow> number" where
  "ordinal_compare a b = (if a < b then -1 else if b < a then 1 else 0)"

definition ignorable_compare :: "string \<Rightarrow> string \<Rightarrow> number" where
  "ignorable_compare a b =
     ordinal_compare (filter (\<lambda>c. c \<noteq> CHR 0x01) a) (filter (\<lambda>c. c \<noteq> CHR 0x01) b)"

section \<open>Example competitors\<close>

text \<open>The scenarios of the specification: A and B tie on everything, D beats C on
  spending, E beats F on countback.\<close>

definition player_A :: Player where
  "player_A = \<lparr>name = ''A'', eventScores = [10, 15, 8, 20, 12], eventSpending = [0, 0, 0, 0, 0],
     totalPoints = 65, totalSpending = 0, rank = None, isTied = None\<rparr>"

text \<open>A with the ignorable character appended to its name.\<close>

definition player_A2 :: Player where
  "player_A2 = player_A\<lparr>name := [CHR ''A'', CHR 0x01]\<rparr>"

definition player_B :: Player where
  "player_B = \<lparr>name = ''B'', eventScores = [15, 10, 20, 8, 12], eventSpending = [0, 0, 0, 0, 0],
     totalPoints = 65, totalSpending = 0, rank = None, isTied = None\<rparr>"

definition player_C :: Player where
  "player_C = \<lparr>name = ''C'', eventScores = [100], eventSpending = [500],
     totalPoints = 100, totalSpending = 500, rank = None, isTied = None\<rparr>"

definition player_D :: Player where
  "player_D = \<lparr>name = ''D'', eventScores = [100], eventSpending = [300],
     totalPoints = 100, totalSpending = 300, rank = None, isTied = None\<rparr>"

definition player_E :: Player where
  "player_E = \<lparr>name = ''E'', eventScores = [50, 0, 0], eventSpending = [0, 0, 0],
     totalPoints = 50, totalSpending = 0, rank = None, isTied = None\<rparr>"

definition player_F :: Player where
  "player_F = \<lparr>name = ''F'', eventScores = [25, 25, 0], eventSpending = [0, 0, 0],
     totalPoints = 50, totalSpending = 0, rank = None, isTied = None\<rparr>"

definition player_G :: Player where
  "player_G = \<lparr>name = ''G'', eventScores = [20, 0, 15, 12, 10, 8], eventSpending = [0, 0, 0, 0, 0, 0],
     totalPoints = 65, totalSpending = 0, rank = None, isTied = None\<rparr>"

text \<open>A record that breaks the input contract: two event scores, one event spending.\<close>

definition player_M :: Player where
  "player_M = \<lparr>name = ''M'', eventScores = [10, 20], eventSpending = [5],
     totalPoints = 30, totalSpending = 5, rank = None, isTied = None\<rparr>"

text \<open>Two records that differ in a negative score only.\<close>

definition player_N :: Player where
  "player_N = \<lparr>name = ''N'', eventScores = [-5, 3], eventSpending = [0, 0],
     totalPoints = -2, totalSpending = 0, rank = None, isTied = None\<rparr>"

definition player_P :: Player where
  "player_P = \<lparr>name = ''P'', eventScores = [3], eventSpending = [0],
     totalPoints = 3, totalSpending = 0, rank = None, isTied = None\<rparr>"

definition example_players :: "Player list" where
  "example_players = [player_B, player_E, player_A, player_D]"

section \<open>Sorting\<close>

lemma mset_insert_by: "mset (insert_by c x xs) = add_mset x (mset xs)"
  by (induction xs) auto

lemma mset_array_sort: "mset (array_sort c xs) = mset xs"
  by (induction xs) (auto simp: array_sort_def mset_insert_by)

lemma set_insert_by: "set (insert_by c x xs) = insert x (set xs)"
  by (induction xs) auto

lemma set_array_sort: "set (array_sort c xs) = set xs"
  using mset_array_sort [of c xs] by (metis set_mset_mset)

lemma length_array_sort: "length (array_sort c xs) = length xs"
  using mset_array_sort [of c xs] by (metis size_mset)

lemma sorted_insert_by:
  assumes c: "consistent_comparator c"
  shows "sorted_wrt (\<lambda>a b. c a b \<le> 0) xs \<Longrightarrow> sorted_wrt (\<lambda>a b. c a b \<le> 0) (insert_by c x xs)"
proof (induction xs)
  case Nil
  show ?case by simp
next
  case (Cons y ys)
  have trans: "\<And>a b d. c a b \<le> 0 \<Longrightarrow> c b d \<le> 0 \<Longrightarrow> c a d \<le> 0"
    using c unfolding consistent_comparator_def by blast
  have flip: "\<And>a b. 0 < c a b \<Longrightarrow> c b a \<le> 0"
    using c unfolding consistent_comparator_def by (metis less_eq_real_def)
  show ?case
  proof (cases "c x y \<le> 0")
    case True
    with Cons.prems trans show ?thesis by auto
  next
    case False
    then have "c y x \<le> 0" using flip by simp
    with False Cons show ?thesis by (auto simp: set_insert_by)
  qed
qed

lemma sorted_array_sort:
  assumes "consistent_comparator c"
  shows "sorted_wrt (\<lambda>a b. c a b \<le> 0) (array_sort c xs)"
  by (induction xs) (simp_all add: array_sort_def sorted_insert_by [OF assms])

lemma consistent_descending: "consistent_comparator (\<lambda>a b :: number. b - a)"
  by (auto simp: consistent_comparator_def)

lemma sorted_positive_sorted: "sorted_wrt (\<ge>) (positive_sorted scores)"
  using sorted_array_sort [OF consistent_descending] by (simp add: positive_sorted_def)

lemma mset_positive_sorted: "mset (positive_sorted scores) = mset (filter (\<lambda>s. s > 0) scores)"
  by (simp add: positive_sorted_def mset_array_sort)

lemma set_positive_sorted: "x \<in> set (positive_sorted scores) \<Longrightarrow> 0 < x"
  by (simp add: positive_sorted_def set_array_sort)

lemma lex_compare_order:
  "lex_compare xs ys = (if ys < xs then -1 else if xs < ys then 1 else 0)"
  by (induction xs ys rule: lex_compare.induct) auto

lemma count_gt_lex:
  fixes A B :: "number list"
  shows "sorted_wrt (\<ge>) A \<Longrightarrow> sorted_wrt (\<ge>) B \<Longrightarrow> \<forall>a\<in>set A. a \<le> v \<Longrightarrow> \<forall>b\<in>set B. b \<le> v \<Longrightarrow>
   length (filter (\<lambda>s. s = v) B) < length (filter (\<lambda>s. s = v) A) \<Longrightarrow> B < A"
proof (induction B arbitrary: A)
  case Nil
  then show ?case by (cases A) auto
next
  case (Cons b B)
  from Cons.prems(5) obtain a A' where A: "A = a # A'" by (cases A) auto
  have "a = v"
  proof (rule ccontr)
    assume "a \<noteq> v"
    with Cons.prems(3) A have "a < v" by auto
    moreover from Cons.prems(1) A have "\<forall>x\<in>set A. x \<le> a" by auto
    ultimately have "\<forall>x\<in>set A. x \<noteq> v" by auto
    then have "filter (\<lambda>s. s = v) A = []" by (simp add: filter_empty_conv)
    with Cons.prems(5) show False by simp
  qed
  show ?case
  proof (cases "b = v")
    case True
    have "B < A'"
      using Cons.prems A \<open>a = v\<close> True by (intro Cons.IH) auto
    then show ?thesis using A \<open>a = v\<close> True by simp
  next
    case False
    with Cons.prems(4) have "b < v" by auto
    then show ?thesis using A \<open>a = v\<close> by simp
  qed
qed


lemma count_split:
  "length (filter P xs) = length (filter P (take i xs)) + length (filter P (drop i xs))"
  by (metis append_take_drop_id filter_append length_append)

lemma sorted_desc_drop_le:
  fixes xs :: "number list"
  assumes "sorted_wrt (\<ge>) xs" "i < length xs"
  shows "\<forall>a\<in>set (drop i xs). a \<le> xs ! i"
proof
  fix a assume "a \<in> set (drop i xs)"
  then obtain k where k: "k < length xs - i" "a = xs ! (i + k)"
    by (auto simp: in_set_conv_nth)
  show "a \<le> xs ! i"
  proof (cases "k = 0")
    case True with k show ?thesis by simp
  next
    case False
    with k assms(1) show ?thesis by (simp add: sorted_wrt_iff_nth_less)
  qed
qed

lemma countback_loop_lex:
  assumes sx: "sorted_wrt (\<ge>) xs" and sy: "sorted_wrt (\<ge>) ys"
    and px: "\<forall>x\<in>set xs. 0 < x" and py: "\<forall>y\<in>set ys. 0 < y"
  shows "take i xs = take i ys \<Longrightarrow>
         countback_loop xs ys (max (length xs) (length ys)) i
           = lex_compare (drop i xs) (drop i ys)"
proof (induction "max (length xs) (length ys) - i" arbitrary: i)
  case 0
  then have "drop i xs = []" "drop i ys = []" by auto
  moreover from 0 have "\<not> i < max (length xs) (length ys)" by auto
  ultimately show ?case by simp
next
  case (Suc n)
  let ?m = "max (length xs) (length ys)"
  from Suc.hyps(2) have im: "i < ?m" by auto
  consider (short1) "length xs \<le> i" "i < length ys"
    | (short2) "length ys \<le> i" "i < length xs"
    | (both) "i < length xs" "i < length ys"
    using im by linarith
  then show ?case
  proof cases
    case short1
    then have y: "0 < ys ! i" using py by simp
    have "countback_body xs ys i = Some 1"
      using short1 y by (simp add: countback_body_def at_or_zero_def)
    moreover have "lex_compare (drop i xs) (drop i ys) = 1"
      using short1 by (simp add: Cons_nth_drop_Suc [symmetric])
    ultimately show ?thesis using im by simp
  next
    case short2
    then have x: "0 < xs ! i" using px by simp
    have "countback_body xs ys i = Some (-1)"
      using short2 x by (simp add: countback_body_def at_or_zero_def)
    moreover have "lex_compare (drop i xs) (drop i ys) = -1"
      using short2 by (simp add: Cons_nth_drop_Suc [symmetric])
    ultimately show ?thesis using im by simp
  next
    case both
    have x: "0 < xs ! i" and y: "0 < ys ! i" using both px py by simp_all
    have dx: "drop i xs = xs ! i # drop (Suc i) xs" and dy: "drop i ys = ys ! i # drop (Suc i) ys"
      using both by (simp_all add: Cons_nth_drop_Suc)
    have ax: "at_or_zero xs i = xs ! i" and ay: "at_or_zero ys i = ys ! i"
      using both x y by (simp_all add: at_or_zero_def)
    show ?thesis
    proof (cases "xs ! i = ys ! i")
      case False
      then have "countback_body xs ys i = Some (if xs ! i > ys ! i then -1 else 1)"
        by (auto simp: countback_body_def ax ay)
      moreover have "lex_compare (drop i xs) (drop i ys) = (if xs ! i > ys ! i then -1 else 1)"
        using False by (simp add: dx dy)
      ultimately show ?thesis using im by simp
    next
      case True
      let ?v = "xs ! i"
      let ?c = "\<lambda>zs. length (filter (\<lambda>s. s = ?v) zs)"
      have cx: "?c xs = ?c (take i ys) + ?c (drop i xs)"
        using count_split [of "\<lambda>s. s = ?v" xs i] Suc.prems by simp
      have cy: "?c ys = ?c (take i ys) + ?c (drop i ys)"
        by (rule count_split)
      have lx: "\<forall>a\<in>set (drop i xs). a \<le> ?v"
        using sorted_desc_drop_le [OF sx both(1)] .
      have ly: "\<forall>a\<in>set (drop i ys). a \<le> ?v"
        using sorted_desc_drop_le [OF sy both(2)] True by simp
      have sdx: "sorted_wrt (\<ge>) (drop i xs)" and sdy: "sorted_wrt (\<ge>) (drop i ys)"
        using sx sy by (simp_all add: sorted_wrt_drop)
      consider (more1) "?c ys < ?c xs" | (more2) "?c xs < ?c ys" | (same) "?c xs = ?c ys"
        by linarith
      then show ?thesis
      proof cases
        case more1
        then have "drop i ys < drop i xs"
          using count_gt_lex [OF sdx sdy lx ly] cx cy by simp
        then have "lex_compare (drop i xs) (drop i ys) = -1"
          by (simp add: lex_compare_order)
        moreover have "countback_body xs ys i = Some (-1)"
          using more1 True x by (simp add: countback_body_def ax ay)
        ultimately show ?thesis using im by simp
      next
        case more2
        then have lt: "drop i xs < drop i ys"
          using count_gt_lex [OF sdy sdx ly lx] cx cy by simp
        then have "\<not> drop i ys < drop i xs" by auto
        with lt have "lex_compare (drop i xs) (drop i ys) = 1"
          by (simp add: lex_compare_order)
        moreover have "countback_body xs ys i = Some 1"
          using more2 True x by (simp add: countback_body_def ax ay)
        ultimately show ?thesis using im by simp
      next
        case same
        have body: "countback_body xs ys i = None"
          using same True x by (simp add: countback_body_def ax ay)
        have tk: "take (Suc i) xs = take (Suc i) ys"
          using Suc.prems True both by (simp add: take_Suc_conv_app_nth)
        have n: "n = ?m - Suc i" using Suc.hyps(2) by simp
        have "countback_loop xs ys ?m i = countback_loop xs ys ?m (Suc i)"
          using im body by simp
        also have "\<dots> = lex_compare (drop (Suc i) xs) (drop (Suc i) ys)"
          using Suc.hyps(1) [OF n tk] .
        also have "\<dots> = lex_compare (drop i xs) (drop i ys)"
          using True by (simp add: dx dy)
        finally show ?thesis .
      qed
    qed
  qed
qed

lemma countbackCompare_lex:
  "countbackCompare p1 p2 =
     lex_compare (positive_sorted (eventScores p1)) (positive_sorted (eventScores p2))"
proof -
  have "countback_loop (positive_sorted (eventScores p1)) (positive_sorted (eventScores p2))
          (max (length (positive_sorted (eventScores p1))) (length (positive_sorted (eventScores p2)))) 0
        = lex_compare (drop 0 (positive_sorted (eventScores p1))) (drop 0 (positive_sorted (eventScores p2)))"
    by (rule countback_loop_lex) (auto simp: sorted_positive_sorted set_positive_sorted)
  then show ?thesis by (simp add: countbackCompare_def Let_def)
qed


section \<open>Countback as an order on profiles\<close>

lemma sorted_desc_unique:
  fixes xs ys :: "number list"
  assumes "sorted_wrt (\<ge>) xs" "sorted_wrt (\<ge>) ys" "mset xs = mset ys"
  shows "xs = ys"
proof -
  have "sorted (rev xs)" "sorted (rev ys)"
    using assms(1,2) by (simp_all add: sorted_wrt_rev)
  moreover have "mset (rev xs) = mset (rev ys)" using assms(3) by simp
  ultimately have "rev xs = rev ys"
    by (metis properties_for_sort)
  then show ?thesis by simp
qed

lemma positive_sorted_eq_iff:
  "positive_sorted xs = positive_sorted ys
     \<longleftrightarrow> mset (filter (\<lambda>s. 0 < s) xs) = mset (filter (\<lambda>s. 0 < s) ys)"
proof
  assume "positive_sorted xs = positive_sorted ys"
  then show "mset (filter (\<lambda>s. 0 < s) xs) = mset (filter (\<lambda>s. 0 < s) ys)"
    by (metis mset_positive_sorted)
next
  assume "mset (filter (\<lambda>s. 0 < s) xs) = mset (filter (\<lambda>s. 0 < s) ys)"
  then have "mset (positive_sorted xs) = mset (positive_sorted ys)"
    by (simp add: mset_positive_sorted)
  then show "positive_sorted xs = positive_sorted ys"
    by (intro sorted_desc_unique sorted_positive_sorted)
qed

lemma countbackCompare_cases:
  "countbackCompare a b =
     (if positive_sorted (eventScores b) < positive_sorted (eventScores a) then -1
      else if positive_sorted (eventScores a) < positive_sorted (eventScores b) then 1
      else 0)"
  by (simp add: countbackCompare_lex lex_compare_order)

lemma countbackCompare_zero_iff:
  "countbackCompare a b = 0 \<longleftrightarrow> positive_sorted (eventScores a) = positive_sorted (eventScores b)"
  by (auto simp: countbackCompare_cases)

lemma countbackCompare_neg_iff:
  "countbackCompare a b < 0 \<longleftrightarrow> positive_sorted (eventScores b) < positive_sorted (eventScores a)"
  by (auto simp: countbackCompare_cases)

lemma countbackCompare_pos_iff:
  "0 < countbackCompare a b \<longleftrightarrow> positive_sorted (eventScores a) < positive_sorted (eventScores b)"
  by (auto simp: countbackCompare_cases)

lemma arePlayersTied_iff:
  "arePlayersTied p q \<longleftrightarrow>
     totalPoints p = totalPoints q \<and> totalSpending p = totalSpending q \<and>
     positive_sorted (eventScores p) = positive_sorted (eventScores q)"
  by (simp add: arePlayersTied_def countbackCompare_zero_iff)

section \<open>The comparator of the sorter\<close>

lemma comparePlayers_less_iff:
  "comparePlayers lc a b < 0 \<longleftrightarrow>
     totalPoints a > totalPoints b \<or>
     (totalPoints a = totalPoints b \<and>
      (totalSpending a < totalSpending b \<or>
       (totalSpending a = totalSpending b \<and>
        (positive_sorted (eventScores b) < positive_sorted (eventScores a) \<or>
         (positive_sorted (eventScores a) = positive_sorted (eventScores b) \<and>
          lc (name a) (name b) < 0)))))"
  by (auto simp: comparePlayers_def Let_def countbackCompare_cases)

lemma comparePlayers_pos_iff:
  "0 < comparePlayers lc a b \<longleftrightarrow>
     totalPoints a < totalPoints b \<or>
     (totalPoints a = totalPoints b \<and>
      (totalSpending b < totalSpending a \<or>
       (totalSpending a = totalSpending b \<and>
        (positive_sorted (eventScores a) < positive_sorted (eventScores b) \<or>
         (positive_sorted (eventScores a) = positive_sorted (eventScores b) \<and>
          0 < lc (name a) (name b))))))"
  by (auto simp: comparePlayers_def Let_def countbackCompare_cases)

lemma comparePlayers_zero_iff:
  "comparePlayers lc a b = 0 \<longleftrightarrow>
     totalPoints a = totalPoints b \<and> totalSpending a = totalSpending b \<and>
     positive_sorted (eventScores a) = positive_sorted (eventScores b) \<and>
     lc (name a) (name b) = 0"
  by (auto simp: comparePlayers_def Let_def countbackCompare_cases)

lemma comparePlayers_le_iff:
  "comparePlayers lc a b \<le> 0 \<longleftrightarrow>
     totalPoints a > totalPoints b \<or>
     (totalPoints a = totalPoints b \<and>
      (totalSpending a < totalSpending b \<or>
       (totalSpending a = totalSpending b \<and>
        (positive_sorted (eventScores b) < positive_sorted (eventScores a) \<or>
         (positive_sorted (eventScores a) = positive_sorted (eventScores b) \<and>
          lc (name a) (name b) \<le> 0)))))"
  unfolding le_less [of "comparePlayers lc a b"] comparePlayers_less_iff comparePlayers_zero_iff
  by auto

lemma consistent_flip: "consistent_comparator c \<Longrightarrow> c a b < 0 \<longleftrightarrow> 0 < c b a"
  unfolding consistent_comparator_def by blast

lemma consistent_trans: "consistent_comparator c \<Longrightarrow> c a b \<le> 0 \<Longrightarrow> c b d \<le> 0 \<Longrightarrow> c a d \<le> 0"
  unfolding consistent_comparator_def by blast

lemma consistent_refl: "consistent_comparator c \<Longrightarrow> c a a = 0"
  using consistent_flip [of c a a] by (metis less_irrefl less_linear not_less_iff_gr_or_eq)

lemma consistent_less_trans:
  assumes c: "consistent_comparator c" and ab: "c a b < 0" and bd: "c b d < 0"
  shows "c a d < 0"
proof (rule ccontr)
  assume "\<not> c a d < 0"
  then have "\<not> 0 < c d a" using consistent_flip [OF c, of a d] by simp
  then have "c d a \<le> 0" by simp
  with ab have "c d b \<le> 0" using consistent_trans [OF c, of d a b] by simp
  moreover have "0 < c d b" using bd consistent_flip [OF c, of b d] by simp
  ultimately show False by simp
qed

lemma consistent_comparePlayers:
  assumes lc: "consistent_comparator lc"
  shows "consistent_comparator (comparePlayers lc)"
  unfolding consistent_comparator_def
proof (intro conjI allI impI)
  fix a b
  show "comparePlayers lc a b < 0 \<longleftrightarrow> 0 < comparePlayers lc b a"
    unfolding comparePlayers_less_iff comparePlayers_pos_iff
    using consistent_flip [OF lc, of "name a" "name b"] by auto
next
  fix a b d
  assume h: "comparePlayers lc a b \<le> 0 \<and> comparePlayers lc b d \<le> 0"
  have t: "lc (name a) (name b) \<le> 0 \<Longrightarrow> lc (name b) (name d) \<le> 0 \<Longrightarrow> lc (name a) (name d) \<le> 0"
    using consistent_trans [OF lc] by blast
  from h t show "comparePlayers lc a d \<le> 0"
    unfolding comparePlayers_le_iff
    by (elim conjE disjE) (auto intro: less_trans)
qed


section \<open>The two stand-in name orders are consistent\<close>

lemma consistent_ordinal_compare: "consistent_comparator ordinal_compare"
  by (auto simp: consistent_comparator_def ordinal_compare_def)

lemma consistent_ignorable_compare: "consistent_comparator ignorable_compare"
  by (auto simp: consistent_comparator_def ignorable_compare_def ordinal_compare_def)

section \<open>Rank assignment\<close>

declare countback_loop.simps [simp del]
declare detailed_loop.simps [simp del]
declare tie_inner.simps [simp del]
declare tie_outer.simps [simp del]

lemma countbackCompare_rank_update [simp]:
  "countbackCompare (p\<lparr>rank := x\<rparr>) q = countbackCompare p q"
  "countbackCompare p (q\<lparr>rank := x\<rparr>) = countbackCompare p q"
  "countbackCompare (p\<lparr>isTied := y\<rparr>) q = countbackCompare p q"
  "countbackCompare p (q\<lparr>isTied := y\<rparr>) = countbackCompare p q"
  by (simp_all add: countbackCompare_def)

lemma arePlayersTied_update [simp]:
  "arePlayersTied (p\<lparr>rank := x\<rparr>) q = arePlayersTied p q"
  "arePlayersTied p (q\<lparr>rank := x\<rparr>) = arePlayersTied p q"
  "arePlayersTied (p\<lparr>isTied := y\<rparr>) q = arePlayersTied p q"
  "arePlayersTied p (q\<lparr>isTied := y\<rparr>) = arePlayersTied p q"
  by (simp_all add: arePlayersTied_def)

declare assignRanks_loop.simps [simp del]

lemma assignRanks_loop_step:
  "assignRanks_loop ps i r =
     (if i < length ps
      then assignRanks_loop (ps[i := (ps ! i)\<lparr>rank := Some r\<rparr>]) (i + 1)
             (if i + 1 < length ps \<and> \<not> arePlayersTied (ps ! i) (ps ! (i + 1)) then i + 2 else r)
      else ps)"
proof (cases "i < length ps")
  case False
  then show ?thesis by (subst assignRanks_loop.simps) simp
next
  case True
  have "(if i < length ps - 1 then
           (let current = ps[i := (ps ! i)\<lparr>rank := Some r\<rparr>] ! i;
                next = ps[i := (ps ! i)\<lparr>rank := Some r\<rparr>] ! (i + 1)
            in if totalPoints current \<noteq> totalPoints next then i + 2
               else if totalSpending current \<noteq> totalSpending next
                       \<or> countbackCompare current next \<noteq> 0 then i + 2
               else r)
         else r)
      = (if i + 1 < length ps \<and> \<not> arePlayersTied (ps ! i) (ps ! (i + 1)) then i + 2 else r)"
    using True by (auto simp: Let_def arePlayersTied_def)
  then show ?thesis
    using True by (subst assignRanks_loop.simps) (simp add: Let_def)
qed

lemma rank_update_self: "\<exists>rk. (p::Player) = p\<lparr>rank := rk\<rparr>"
  by (rule exI [of _ "rank p"]) simp

lemma assignRanks_loop_props:
  "length (assignRanks_loop ps i r) = length ps \<and>
   (\<forall>k<length ps. k < i \<longrightarrow> assignRanks_loop ps i r ! k = ps ! k) \<and>
   (\<forall>k<length ps. \<exists>rk. assignRanks_loop ps i r ! k = (ps ! k)\<lparr>rank := rk\<rparr>) \<and>
   (i < length ps \<longrightarrow> rank (assignRanks_loop ps i r ! i) = Some r) \<and>
   (\<forall>k. i \<le> k \<and> Suc k < length ps \<longrightarrow>
      rank (assignRanks_loop ps i r ! Suc k) =
        (if arePlayersTied (ps ! k) (ps ! Suc k) then rank (assignRanks_loop ps i r ! k)
         else Some (k + 2)))"
proof (induction "length ps - i" arbitrary: ps i r)
  case 0
  then have "\<not> i < length ps" by simp
  then have eq: "assignRanks_loop ps i r = ps" by (subst assignRanks_loop_step) simp
  have "\<forall>k<length ps. \<exists>rk. ps ! k = (ps ! k)\<lparr>rank := rk\<rparr>"
    using rank_update_self by blast
  with 0 eq show ?case by auto
next
  case (Suc n)
  then have il: "i < length ps" by simp
  define ps' where "ps' = ps[i := (ps ! i)\<lparr>rank := Some r\<rparr>]"
  define r' where "r' = (if i + 1 < length ps \<and> \<not> arePlayersTied (ps ! i) (ps ! (i + 1)) then i + 2 else r)"
  define res where "res = assignRanks_loop ps' (i + 1) r'"
  have res: "assignRanks_loop ps i r = res"
    using il by (subst assignRanks_loop_step) (simp add: res_def ps'_def r'_def)
  have len': "length ps' = length ps" by (simp add: ps'_def)
  have n: "n = length ps' - (i + 1)" using Suc.hyps(2) len' by simp
  note IH = Suc.hyps(1) [OF n, of r', folded res_def, unfolded len']
  note IH1 = IH [THEN conjunct1]
  note IH2 = IH [THEN conjunct2, THEN conjunct1]
  note IH3 = IH [THEN conjunct2, THEN conjunct2, THEN conjunct1]
  note IH4 = IH [THEN conjunct2, THEN conjunct2, THEN conjunct2, THEN conjunct1]
  note IH5 = IH [THEN conjunct2, THEN conjunct2, THEN conjunct2, THEN conjunct2]
  have I1: "length res = length ps" using IH1 .
  have I2: "\<And>k. k < length ps \<Longrightarrow> k < i + 1 \<Longrightarrow> res ! k = ps' ! k" using IH2 by blast
  have I3: "\<And>k. k < length ps \<Longrightarrow> \<exists>rk. res ! k = (ps' ! k)\<lparr>rank := rk\<rparr>" using IH3 by blast
  have I4: "i + 1 < length ps \<Longrightarrow> rank (res ! (i + 1)) = Some r'" using IH4 by blast
  have I5: "\<And>k. i + 1 \<le> k \<Longrightarrow> Suc k < length ps \<Longrightarrow>
      rank (res ! Suc k) =
        (if arePlayersTied (ps' ! k) (ps' ! Suc k) then rank (res ! k) else Some (k + 2))"
    using IH5 by blast
  have nth': "\<And>k. k < length ps \<Longrightarrow> k \<noteq> i \<Longrightarrow> ps' ! k = ps ! k"
    by (simp add: ps'_def)
  have nthi: "ps' ! i = (ps ! i)\<lparr>rank := Some r\<rparr>"
    using il by (simp add: ps'_def)
  have P2: "\<forall>k<length ps. k < i \<longrightarrow> res ! k = ps ! k"
    using I2 nth' by simp
  have P3: "\<forall>k<length ps. \<exists>rk. res ! k = (ps ! k)\<lparr>rank := rk\<rparr>"
  proof (intro allI impI)
    fix k assume k: "k < length ps"
    from I3 [OF k] obtain rk where rk: "res ! k = (ps' ! k)\<lparr>rank := rk\<rparr>" by blast
    show "\<exists>rk. res ! k = (ps ! k)\<lparr>rank := rk\<rparr>"
    proof (cases "k = i")
      case True
      with rk nthi have "res ! k = (ps ! k)\<lparr>rank := rk\<rparr>" by simp
      then show ?thesis by blast
    next
      case False
      with rk nth' [OF k] show ?thesis by auto
    qed
  qed
  have P4: "rank (res ! i) = Some r"
    using I2 [OF il] nthi by simp
  have P5: "\<forall>k. i \<le> k \<and> Suc k < length ps \<longrightarrow>
      rank (res ! Suc k) =
        (if arePlayersTied (ps ! k) (ps ! Suc k) then rank (res ! k) else Some (k + 2))"
  proof (intro allI impI)
    fix k assume k: "i \<le> k \<and> Suc k < length ps"
    show "rank (res ! Suc k) =
        (if arePlayersTied (ps ! k) (ps ! Suc k) then rank (res ! k) else Some (k + 2))"
    proof (cases "k = i")
      case True
      with k I4 P4 show ?thesis by (simp add: r'_def)
    next
      case False
      with k have "i + 1 \<le> k" "Suc k < length ps" "k < length ps" "k \<noteq> i" "Suc k \<noteq> i" by auto
      then have "rank (res ! Suc k) =
        (if arePlayersTied (ps' ! k) (ps' ! Suc k) then rank (res ! k) else Some (k + 2))"
        "ps' ! k = ps ! k" "ps' ! Suc k = ps ! Suc k"
        using I5 [of k] nth' [of k] nth' [of "Suc k"] by blast+
      then show ?thesis by simp
    qed
  qed
  show ?case unfolding res
  proof (intro conjI)
    show "i < length ps \<longrightarrow> rank (res ! i) = Some r" using P4 by simp
  qed (fact I1 P2 P3 P5)+
qed


section \<open>Shape of the result of the sorter\<close>

lemma assignRanks_length [simp]: "length (assignRanks ps) = length ps"
  using assignRanks_loop_props [of ps 0 1] by (simp add: assignRanks_def)

lemma assignRanks_nth: "k < length ps \<Longrightarrow> \<exists>rk. assignRanks ps ! k = (ps ! k)\<lparr>rank := rk\<rparr>"
  using assignRanks_loop_props [of ps 0 1] by (simp add: assignRanks_def)

lemma assignRanks_first: "ps \<noteq> [] \<Longrightarrow> rank (assignRanks ps ! 0) = Some 1"
  using assignRanks_loop_props [of ps 0 1] by (simp add: assignRanks_def)

lemma assignRanks_next:
  "Suc k < length ps \<Longrightarrow>
   rank (assignRanks ps ! Suc k) =
     (if arePlayersTied (ps ! k) (ps ! Suc k) then rank (assignRanks ps ! k) else Some (k + 2))"
  using assignRanks_loop_props [of ps 0 1] by (simp add: assignRanks_def)

lemma fold_mark_length [simp]:
  "length (fold (\<lambda>k ps. ps[k := (ps ! k)\<lparr>isTied := Some True\<rparr>]) ks ps) = length ps"
  by (induction ks arbitrary: ps) simp_all

lemma fold_mark_nth:
  "k < length ps \<Longrightarrow>
   fold (\<lambda>k ps. ps[k := (ps ! k)\<lparr>isTied := Some True\<rparr>]) ks ps ! k =
     (if k \<in> set ks then (ps ! k)\<lparr>isTied := Some True\<rparr> else ps ! k)"
proof (induction ks arbitrary: ps)
  case Nil
  then show ?case by simp
next
  case (Cons a ks)
  then show ?case by (cases "k = a") (simp_all)
qed

lemma fold_groups_concat: "fold (\<lambda>xs s. fold f xs s) xss s = fold f (concat xss) s"
  by (induction xss arbitrary: s) simp_all

lemma markTiedPlayers_fold:
  "markTiedPlayers ps =
     fold (\<lambda>k ps. ps[k := (ps ! k)\<lparr>isTied := Some True\<rparr>]) (concat (findTieGroups ps)) ps"
  by (simp add: markTiedPlayers_def Let_def fold_groups_concat)

lemma markTiedPlayers_length [simp]: "length (markTiedPlayers ps) = length ps"
  by (simp add: markTiedPlayers_fold)

lemma markTiedPlayers_nth:
  "k < length ps \<Longrightarrow>
   markTiedPlayers ps ! k =
     (if k \<in> set (concat (findTieGroups ps)) then (ps ! k)\<lparr>isTied := Some True\<rparr> else ps ! k)"
  by (simp add: markTiedPlayers_fold fold_mark_nth)

lemma sortPlayers_length [simp]: "length (sortPlayers lc ps) = length ps"
  by (simp add: sortPlayers_def length_array_sort)

lemma sortPlayers_nth:
  assumes "k < length ps"
  shows "\<exists>rk t. sortPlayers lc ps ! k = (array_sort (comparePlayers lc) ps ! k)\<lparr>rank := rk, isTied := t\<rparr>"
proof -
  let ?s = "array_sort (comparePlayers lc) ps"
  have k: "k < length ?s" using assms by (simp add: length_array_sort)
  from assignRanks_nth [OF k] obtain rk where rk: "assignRanks ?s ! k = (?s ! k)\<lparr>rank := rk\<rparr>"
    by blast
  have "sortPlayers lc ps ! k = (?s ! k)\<lparr>rank := rk, isTied := isTied (sortPlayers lc ps ! k)\<rparr>"
    using k rk by (simp add: sortPlayers_def markTiedPlayers_nth)
  then show ?thesis by blast
qed

lemma sortPlayers_unranked:
  "map unranked (sortPlayers lc ps) = map unranked (array_sort (comparePlayers lc) ps)"
proof (rule nth_equalityI)
  show "length (map unranked (sortPlayers lc ps)) = length (map unranked (array_sort (comparePlayers lc) ps))"
    by (simp add: length_array_sort)
next
  fix k assume "k < length (map unranked (sortPlayers lc ps))"
  then have k: "k < length ps" by simp
  from sortPlayers_nth [OF k, of lc] obtain rk t where
    "sortPlayers lc ps ! k = (array_sort (comparePlayers lc) ps ! k)\<lparr>rank := rk, isTied := t\<rparr>"
    by blast
  then show "map unranked (sortPlayers lc ps) ! k = map unranked (array_sort (comparePlayers lc) ps) ! k"
    using k by (simp add: unranked_def length_array_sort)
qed

section \<open>The result is ordered, and ranks count the competitors ahead\<close>

lemma outranks_iff:
  "outranks q p \<longleftrightarrow>
     totalPoints q > totalPoints p \<or>
     (totalPoints q = totalPoints p \<and>
      (totalSpending q < totalSpending p \<or>
       (totalSpending q = totalSpending p \<and>
        positive_sorted (eventScores p) < positive_sorted (eventScores q))))"
  by (auto simp: outranks_def countbackCompare_neg_iff)

lemma comparePlayers_le_not_outranks: "comparePlayers lc a b \<le> 0 \<Longrightarrow> \<not> outranks b a"
  by (auto simp: comparePlayers_le_iff outranks_iff)

lemma comparePlayers_le_outranks:
  "comparePlayers lc a b \<le> 0 \<Longrightarrow> \<not> arePlayersTied a b \<Longrightarrow> outranks a b"
  by (auto simp: comparePlayers_le_iff outranks_iff arePlayersTied_iff)

lemma outranks_trans_le:
  "comparePlayers lc c a \<le> 0 \<Longrightarrow> outranks a b \<Longrightarrow> outranks c b"
  unfolding comparePlayers_le_iff outranks_iff
  by (elim disjE conjE) (auto intro: less_trans)

lemma outranks_tied_cong: "arePlayersTied a b \<Longrightarrow> outranks q a = outranks q b"
  by (auto simp: outranks_iff arePlayersTied_iff)

lemma outranks_update [simp]:
  "outranks q (p\<lparr>rank := rk, isTied := t\<rparr>) = outranks q p"
  "outranks (q\<lparr>rank := rk, isTied := t\<rparr>) p = outranks q p"
  by (simp_all add: outranks_def)

lemma comparePlayers_update [simp]:
  "comparePlayers lc (a\<lparr>rank := rk, isTied := t\<rparr>) b = comparePlayers lc a b"
  "comparePlayers lc a (b\<lparr>rank := rk, isTied := t\<rparr>) = comparePlayers lc a b"
  by (simp_all add: comparePlayers_def Let_def)

lemma arePlayersTied_update2 [simp]:
  "arePlayersTied (a\<lparr>rank := rk, isTied := t\<rparr>) b = arePlayersTied a b"
  "arePlayersTied a (b\<lparr>rank := rk, isTied := t\<rparr>) = arePlayersTied a b"
  by simp_all

lemma sortPlayers_sorted:
  assumes lc: "consistent_comparator lc" and ij: "i < j" "j < length ps"
  shows "comparePlayers lc (sortPlayers lc ps ! i) (sortPlayers lc ps ! j) \<le> 0"
proof -
  let ?s = "array_sort (comparePlayers lc) ps"
  have "sorted_wrt (\<lambda>a b. comparePlayers lc a b \<le> 0) ?s"
    by (rule sorted_array_sort [OF consistent_comparePlayers [OF lc]])
  then have s: "comparePlayers lc (?s ! i) (?s ! j) \<le> 0"
    using ij by (simp add: sorted_wrt_iff_nth_less length_array_sort)
  from ij have i: "i < length ps" by simp
  from sortPlayers_nth [OF i, of lc] sortPlayers_nth [OF ij(2), of lc] s
  show ?thesis by auto
qed


lemma sortPlayers_rank_eq:
  assumes "k < length ps"
  shows "rank (sortPlayers lc ps ! k) = rank (assignRanks (array_sort (comparePlayers lc) ps) ! k)"
  using assms by (simp add: sortPlayers_def markTiedPlayers_nth length_array_sort)

lemma sortPlayers_tied_eq:
  assumes "i < length ps" "j < length ps"
  shows "arePlayersTied (sortPlayers lc ps ! i) (sortPlayers lc ps ! j)
       = arePlayersTied (array_sort (comparePlayers lc) ps ! i) (array_sort (comparePlayers lc) ps ! j)"
  using sortPlayers_nth [OF assms(1), of lc] sortPlayers_nth [OF assms(2), of lc] by auto

lemma sortPlayers_rank_first: "ps \<noteq> [] \<Longrightarrow> rank (sortPlayers lc ps ! 0) = Some 1"
proof -
  assume ne: "ps \<noteq> []"
  then have "array_sort (comparePlayers lc) ps \<noteq> []"
    using length_array_sort [of "comparePlayers lc" ps] by auto
  from assignRanks_first [OF this] ne show ?thesis
    by (simp add: sortPlayers_rank_eq)
qed

lemma sortPlayers_rank_next:
  assumes "Suc k < length ps"
  shows "rank (sortPlayers lc ps ! Suc k) =
     (if arePlayersTied (sortPlayers lc ps ! k) (sortPlayers lc ps ! Suc k)
      then rank (sortPlayers lc ps ! k) else Some (k + 2))"
proof -
  let ?s = "array_sort (comparePlayers lc) ps"
  from assms have k: "k < length ps" by simp
  have "Suc k < length ?s" using assms by (simp add: length_array_sort)
  from assignRanks_next [OF this] show ?thesis
    by (simp add: sortPlayers_rank_eq [OF assms] sortPlayers_rank_eq [OF k]
        sortPlayers_tied_eq [OF k assms])
qed

lemma filter_length_mset: "mset xs = mset ys \<Longrightarrow> length (filter P xs) = length (filter P ys)"
  by (metis mset_filter size_mset)

lemma sortPlayers_outranks_count:
  "length (filter (\<lambda>q. outranks q p) ps) = length (filter (\<lambda>q. outranks q p) (sortPlayers lc ps))"
proof -
  let ?s = "array_sort (comparePlayers lc) ps"
  have "map (\<lambda>q. outranks q p) (sortPlayers lc ps) = map (\<lambda>q. outranks q p) ?s"
  proof (rule nth_equalityI)
    fix k assume "k < length (map (\<lambda>q. outranks q p) (sortPlayers lc ps))"
    then have k: "k < length ps" by simp
    from sortPlayers_nth [OF k, of lc]
    show "map (\<lambda>q. outranks q p) (sortPlayers lc ps) ! k = map (\<lambda>q. outranks q p) ?s ! k"
      using k by (auto simp: length_array_sort)
  qed (simp add: length_array_sort)
  then have "length (filter id (map (\<lambda>q. outranks q p) (sortPlayers lc ps)))
           = length (filter id (map (\<lambda>q. outranks q p) ?s))" by simp
  then have "length (filter (\<lambda>q. outranks q p) (sortPlayers lc ps))
           = length (filter (\<lambda>q. outranks q p) ?s)"
    by (simp add: filter_map comp_def)
  also have "\<dots> = length (filter (\<lambda>q. outranks q p) ps)"
    by (rule filter_length_mset) (rule mset_array_sort)
  finally show ?thesis by simp
qed

lemma in_set_take_nth: "q \<in> set (take n xs) \<Longrightarrow> \<exists>j<n. j < length xs \<and> q = xs ! j"
  by (auto simp: in_set_conv_nth)

lemma in_set_drop_nth: "q \<in> set (drop n xs) \<Longrightarrow> \<exists>j\<ge>n. j < length xs \<and> q = xs ! j"
proof -
  assume "q \<in> set (drop n xs)"
  then obtain i where i: "i < length xs - n" "q = xs ! (n + i)"
    by (auto simp: in_set_conv_nth)
  then have "n \<le> n + i \<and> n + i < length xs \<and> q = xs ! (n + i)" by simp
  then show ?thesis by blast
qed

lemma outranks_irrefl: "\<not> outranks p p"
  by (simp add: outranks_iff)

lemma sortPlayers_rank_count:
  assumes lc: "consistent_comparator lc"
  shows "k < length ps \<Longrightarrow>
     rank (sortPlayers lc ps ! k)
       = Some (Suc (length (filter (\<lambda>q. outranks q (sortPlayers lc ps ! k)) (sortPlayers lc ps))))"
proof (induction k)
  case 0
  let ?out = "sortPlayers lc ps"
  have "\<forall>q\<in>set ?out. \<not> outranks q (?out ! 0)"
  proof
    fix q assume "q \<in> set ?out"
    then obtain j where j: "j < length ps" "q = ?out ! j" by (auto simp: in_set_conv_nth)
    show "\<not> outranks q (?out ! 0)"
    proof (cases "j = 0")
      case True
      then show ?thesis using j by (simp add: outranks_irrefl)
    next
      case False
      then have "comparePlayers lc (?out ! 0) (?out ! j) \<le> 0"
        using sortPlayers_sorted [OF lc, of 0 j ps] j by simp
      then have "\<not> outranks (?out ! j) (?out ! 0)" by (rule comparePlayers_le_not_outranks)
      then show ?thesis using j by simp
    qed
  qed
  then have "filter (\<lambda>q. outranks q (?out ! 0)) ?out = []"
    by (simp add: filter_empty_conv)
  moreover from 0 have "ps \<noteq> []" by auto
  ultimately show ?case by (simp add: sortPlayers_rank_first)
next
  case (Suc k)
  let ?out = "sortPlayers lc ps"
  from Suc.prems have k: "k < length ps" by simp
  note le = sortPlayers_sorted [OF lc, of k "Suc k" ps, OF lessI Suc.prems]
  show ?case
  proof (cases "arePlayersTied (?out ! k) (?out ! Suc k)")
    case True
    then have "\<And>q. outranks q (?out ! Suc k) = outranks q (?out ! k)"
      by (rule outranks_tied_cong [symmetric])
    with True Suc.IH [OF k] show ?thesis
      by (simp add: sortPlayers_rank_next [OF Suc.prems])
  next
    case False
    let ?P = "\<lambda>q. outranks q (?out ! Suc k)"
    have step: "outranks (?out ! k) (?out ! Suc k)"
      using le False by (rule comparePlayers_le_outranks)
    have before: "\<forall>q\<in>set (take (Suc k) ?out). ?P q"
    proof
      fix q assume "q \<in> set (take (Suc k) ?out)"
      from in_set_take_nth [OF this] obtain j where j: "j < Suc k" "q = ?out ! j"
        by auto
      show "?P q"
      proof (cases "j = k")
        case True with j step show ?thesis by simp
      next
        case False
        with j have "j < k" by simp
        then have "comparePlayers lc (?out ! j) (?out ! k) \<le> 0"
          using sortPlayers_sorted [OF lc, of j k ps] k by simp
        then have "outranks (?out ! j) (?out ! Suc k)" using step by (rule outranks_trans_le)
        then show ?thesis using j by simp
      qed
    qed
    have after: "\<forall>q\<in>set (drop (Suc k) ?out). \<not> ?P q"
    proof
      fix q assume "q \<in> set (drop (Suc k) ?out)"
      from in_set_drop_nth [OF this] obtain j where j: "Suc k \<le> j" "j < length ?out" "q = ?out ! j"
        by auto
      show "\<not> ?P q"
      proof (cases "j = Suc k")
        case True
        then show ?thesis using j by (simp add: outranks_irrefl)
      next
        case False
        with j have "Suc k < j" by simp
        then have "comparePlayers lc (?out ! Suc k) (?out ! j) \<le> 0"
          using sortPlayers_sorted [OF lc, of "Suc k" j ps] j by simp
        then have "\<not> outranks (?out ! j) (?out ! Suc k)" by (rule comparePlayers_le_not_outranks)
        then show ?thesis using j by simp
      qed
    qed
    have "filter ?P ?out = filter ?P (take (Suc k) ?out) @ filter ?P (drop (Suc k) ?out)"
      by (metis append_take_drop_id filter_append)
    also have "filter ?P (take (Suc k) ?out) = take (Suc k) ?out"
      using before by (simp add: filter_id_conv)
    also have "filter ?P (drop (Suc k) ?out) = []"
      using after by (simp add: filter_empty_conv)
    finally have "length (filter ?P ?out) = Suc k"
      using Suc.prems by simp
    with False show ?thesis
      by (simp add: sortPlayers_rank_next [OF Suc.prems])
  qed
qed



lemma sortPlayers_rank_set:
  "k < length ps \<Longrightarrow> \<exists>r. rank (sortPlayers lc ps ! k) = Some r \<and> 1 \<le> r \<and> r \<le> k + 1"
proof (induction k)
  case 0
  then have "ps \<noteq> []" by auto
  then show ?case using sortPlayers_rank_first [of ps lc] by simp
next
  case (Suc k)
  then obtain r where r: "rank (sortPlayers lc ps ! k) = Some r" "1 \<le> r" "r \<le> k + 1" by auto
  show ?case
    using sortPlayers_rank_next [OF Suc.prems, of lc] r
    by (cases "arePlayersTied (sortPlayers lc ps ! k) (sortPlayers lc ps ! Suc k)") auto
qed

section \<open>Tie groups\<close>

lemma arePlayersTied_refl: "arePlayersTied p p"
  by (simp add: arePlayersTied_iff)

lemma arePlayersTied_sym: "arePlayersTied p q \<Longrightarrow> arePlayersTied q p"
  by (simp add: arePlayersTied_iff)

lemma arePlayersTied_trans: "arePlayersTied p q \<Longrightarrow> arePlayersTied q r \<Longrightarrow> arePlayersTied p r"
  by (simp add: arePlayersTied_iff)

lemma distinct_names_nth:
  "distinct (map name ps) \<Longrightarrow> j < length ps \<Longrightarrow> k < length ps \<Longrightarrow>
   name (ps ! j) = name (ps ! k) \<longleftrightarrow> j = k"
  using nth_eq_iff_index_eq [of "map name ps" j k] by simp

lemma tie_inner_step:
  "tie_inner ps p j (g, P) =
     (if j < length ps
      then tie_inner ps p (j + 1)
             (if name (ps ! j) \<notin> P \<and> arePlayersTied p (ps ! j)
              then (g @ [j], insert (name (ps ! j)) P) else (g, P))
      else (g, P))"
  by (subst tie_inner.simps) (simp add: Let_def)

lemma tie_inner_closed:
  assumes d: "distinct (map name ps)"
  shows "tie_inner ps p j (g, P) =
     (g @ filter (\<lambda>k. name (ps ! k) \<notin> P \<and> arePlayersTied p (ps ! k)) [j..<length ps],
      P \<union> {name (ps ! k) | k. j \<le> k \<and> k < length ps \<and> name (ps ! k) \<notin> P \<and> arePlayersTied p (ps ! k)})"
proof (induction "length ps - j" arbitrary: j g P)
  case 0
  then have "\<not> j < length ps" by simp
  then show ?case by (subst tie_inner_step) auto
next
  case (Suc n)
  then have jl: "j < length ps" by simp
  have n: "n = length ps - (j + 1)" using Suc.hyps(2) by simp
  have upt: "[j..<length ps] = j # [j + 1..<length ps]"
    using jl by (simp add: upt_conv_Cons)
  let ?N = "\<lambda>k. name (ps ! k)"
  let ?T = "\<lambda>k. arePlayersTied p (ps ! k)"
  show ?case
  proof (cases "?N j \<notin> P \<and> ?T j")
    case False
    have "tie_inner ps p j (g, P) = tie_inner ps p (j + 1) (g, P)"
      using jl False by (subst tie_inner_step) auto
    also have "\<dots> = (g @ filter (\<lambda>k. ?N k \<notin> P \<and> ?T k) [j + 1..<length ps],
        P \<union> {?N k | k. j + 1 \<le> k \<and> k < length ps \<and> ?N k \<notin> P \<and> ?T k})"
      by (rule Suc.hyps(1) [OF n])
    also have "filter (\<lambda>k. ?N k \<notin> P \<and> ?T k) [j + 1..<length ps]
        = filter (\<lambda>k. ?N k \<notin> P \<and> ?T k) [j..<length ps]"
      using False by (simp add: upt)
    also have "{?N k | k. j + 1 \<le> k \<and> k < length ps \<and> ?N k \<notin> P \<and> ?T k}
        = {?N k | k. j \<le> k \<and> k < length ps \<and> ?N k \<notin> P \<and> ?T k}"
    proof -
      have "\<And>k. (j + 1 \<le> k \<and> k < length ps \<and> ?N k \<notin> P \<and> ?T k)
          = (j \<le> k \<and> k < length ps \<and> ?N k \<notin> P \<and> ?T k)"
      proof -
        fix k show "(j + 1 \<le> k \<and> k < length ps \<and> ?N k \<notin> P \<and> ?T k)
          = (j \<le> k \<and> k < length ps \<and> ?N k \<notin> P \<and> ?T k)"
          using False by (cases "k = j") auto
      qed
      then show ?thesis by simp
    qed
    finally show ?thesis .
  next
    case True
    let ?P' = "insert (?N j) P"
    have neq: "\<And>k. Suc j \<le> k \<Longrightarrow> k < length ps \<Longrightarrow> ?N k \<noteq> ?N j"
      using distinct_names_nth [OF d _ jl] by simp
    have other: "\<And>k. Suc j \<le> k \<Longrightarrow> k < length ps \<Longrightarrow> (?N k \<notin> ?P') = (?N k \<notin> P)"
      using neq by simp
    have "tie_inner ps p j (g, P) = tie_inner ps p (j + 1) (g @ [j], ?P')"
      using jl True by (subst tie_inner_step) auto
    also have "\<dots> = ((g @ [j]) @ filter (\<lambda>k. ?N k \<notin> ?P' \<and> ?T k) [j + 1..<length ps],
        ?P' \<union> {?N k | k. j + 1 \<le> k \<and> k < length ps \<and> ?N k \<notin> ?P' \<and> ?T k})"
      by (rule Suc.hyps(1) [OF n])
    also have "filter (\<lambda>k. ?N k \<notin> ?P' \<and> ?T k) [j + 1..<length ps]
        = filter (\<lambda>k. ?N k \<notin> P \<and> ?T k) [j + 1..<length ps]"
      using neq by (intro filter_cong refl) auto
    also have "(g @ [j]) @ filter (\<lambda>k. ?N k \<notin> P \<and> ?T k) [j + 1..<length ps]
        = g @ filter (\<lambda>k. ?N k \<notin> P \<and> ?T k) [j..<length ps]"
      using True by (simp add: upt)
    also have "?P' \<union> {?N k | k. j + 1 \<le> k \<and> k < length ps \<and> ?N k \<notin> ?P' \<and> ?T k}
        = P \<union> {?N k | k. j \<le> k \<and> k < length ps \<and> ?N k \<notin> P \<and> ?T k}"
    proof -
      have a: "{?N k | k. j + 1 \<le> k \<and> k < length ps \<and> ?N k \<notin> ?P' \<and> ?T k}
          = {?N k | k. j + 1 \<le> k \<and> k < length ps \<and> ?N k \<notin> P \<and> ?T k}"
        using neq by (intro Collect_cong ex_cong1) auto
      have b: "{?N k | k. j \<le> k \<and> k < length ps \<and> ?N k \<notin> P \<and> ?T k}
          = insert (?N j) {?N k | k. j + 1 \<le> k \<and> k < length ps \<and> ?N k \<notin> P \<and> ?T k}"
      proof -
        have "\<And>k. (j \<le> k \<and> k < length ps \<and> ?N k \<notin> P \<and> ?T k)
            = (k = j \<or> (j + 1 \<le> k \<and> k < length ps \<and> ?N k \<notin> P \<and> ?T k))"
        proof -
          fix k show "(j \<le> k \<and> k < length ps \<and> ?N k \<notin> P \<and> ?T k)
            = (k = j \<or> (j + 1 \<le> k \<and> k < length ps \<and> ?N k \<notin> P \<and> ?T k))"
            using True jl by (cases "k = j") auto
        qed
        then show ?thesis by auto
      qed
      show ?thesis unfolding a b by simp
    qed
    finally show ?thesis .
  qed
qed


lemma tie_outer_step:
  "tie_outer ps i (G, P) =
     (if i < length ps
      then tie_outer ps (i + 1)
             (if name (ps ! i) \<in> P then (G, P)
              else (let (g, P') = tie_inner ps (ps ! i) (i + 1) ([i], insert (name (ps ! i)) P)
                    in if length g > 1 then (G @ [g], P') else (G, P')))
      else G)"
  by (subst tie_outer.simps) (simp add: Let_def)

lemma tie_outer_new_group:
  assumes d: "distinct (map name ps)"
    and closed: "\<forall>k<length ps. \<forall>m<length ps. arePlayersTied (ps ! k) (ps ! m) \<longrightarrow>
            (name (ps ! k) \<in> P \<longleftrightarrow> name (ps ! m) \<in> P)"
    and cover: "\<forall>k<length ps. k < i \<longrightarrow> name (ps ! k) \<in> P"
    and il: "i < length ps" and np: "name (ps ! i) \<notin> P"
  shows "\<exists>g P'.
     tie_outer ps i (G, P) = tie_outer ps (i + 1) (if length g > 1 then G @ [g] else G, P') \<and>
     set g = {k. k < length ps \<and> arePlayersTied (ps ! i) (ps ! k)} \<and>
     (length g > 1 \<longleftrightarrow> (\<exists>m<length ps. m \<noteq> i \<and> arePlayersTied (ps ! i) (ps ! m))) \<and>
     (\<forall>k<length ps. name (ps ! k) \<in> P' \<longleftrightarrow>
        name (ps ! k) \<in> P \<or> arePlayersTied (ps ! i) (ps ! k)) \<and>
     (\<forall>k<length ps. \<forall>m<length ps. arePlayersTied (ps ! k) (ps ! m) \<longrightarrow>
        (name (ps ! k) \<in> P' \<longleftrightarrow> name (ps ! m) \<in> P')) \<and>
     (\<forall>k<length ps. k < i + 1 \<longrightarrow> name (ps ! k) \<in> P')"
proof -
  let ?N = "\<lambda>k. name (ps ! k)"
  let ?T = "\<lambda>k m. arePlayersTied (ps ! k) (ps ! m)"
  define C where "C = {k. k < length ps \<and> ?T i k}"
  define g where "g = i # filter (\<lambda>k. ?T i k) [i + 1..<length ps]"
  define P' where "P' = P \<union> ?N ` C"
  have unproc: "\<And>k. k < length ps \<Longrightarrow> ?T i k \<Longrightarrow> ?N k \<notin> P"
    using closed il np by blast
  have later: "\<And>k. k < length ps \<Longrightarrow> ?T i k \<Longrightarrow> i \<le> k"
    using unproc cover by (meson not_le)
  have neq: "\<And>k. Suc i \<le> k \<Longrightarrow> k < length ps \<Longrightarrow> ?N k \<noteq> ?N i"
    using distinct_names_nth [OF d _ il] by simp
  have inner: "tie_inner ps (ps ! i) (i + 1) ([i], insert (?N i) P) = (g, P')"
  proof -
    have f: "filter (\<lambda>k. ?N k \<notin> insert (?N i) P \<and> ?T i k) [i + 1..<length ps]
        = filter (\<lambda>k. ?T i k) [i + 1..<length ps]"
      using neq unproc by (intro filter_cong refl) auto
    have s: "insert (?N i) P \<union>
          {?N k | k. i + 1 \<le> k \<and> k < length ps \<and> ?N k \<notin> insert (?N i) P \<and> ?T i k} = P'"
    proof (rule set_eqI)
      fix x
      show "x \<in> insert (?N i) P \<union>
          {?N k | k. i + 1 \<le> k \<and> k < length ps \<and> ?N k \<notin> insert (?N i) P \<and> ?T i k}
          \<longleftrightarrow> x \<in> P'"
      proof
        assume "x \<in> insert (?N i) P \<union>
          {?N k | k. i + 1 \<le> k \<and> k < length ps \<and> ?N k \<notin> insert (?N i) P \<and> ?T i k}"
        then consider "x = ?N i" | "x \<in> P"
          | k where "i + 1 \<le> k" "k < length ps" "?T i k" "x = ?N k" by auto
        then show "x \<in> P'"
        proof cases
          case 1
          have "i \<in> C" using il by (simp add: C_def arePlayersTied_refl)
          with 1 show ?thesis by (auto simp: P'_def)
        next
          case 2 then show ?thesis by (simp add: P'_def)
        next
          case 3
          then have "k \<in> C" by (simp add: C_def)
          with 3 show ?thesis by (auto simp: P'_def)
        qed
      next
        assume "x \<in> P'"
        then consider "x \<in> P" | k where "k \<in> C" "x = ?N k" by (auto simp: P'_def)
        then show "x \<in> insert (?N i) P \<union>
          {?N k | k. i + 1 \<le> k \<and> k < length ps \<and> ?N k \<notin> insert (?N i) P \<and> ?T i k}"
        proof cases
          case 1 then show ?thesis by simp
        next
          case 2
          then have k: "k < length ps" "?T i k" by (simp_all add: C_def)
          show ?thesis
          proof (cases "k = i")
            case True with 2 show ?thesis by simp
          next
            case False
            with later [OF k] have ik: "i + 1 \<le> k" by simp
            then have "?N k \<noteq> ?N i" using neq k by simp
            with ik k unproc [OF k] 2 show ?thesis by auto
          qed
        qed
      qed
    qed
    show ?thesis
      unfolding tie_inner_closed [OF d] f s by (simp add: g_def)
  qed
  have setg: "set g = C"
  proof (rule set_eqI)
    fix k
    show "k \<in> set g \<longleftrightarrow> k \<in> C"
      using il later [of k] by (auto simp: g_def C_def arePlayersTied_refl)
  qed
  have leng: "length g > 1 \<longleftrightarrow> (\<exists>m<length ps. m \<noteq> i \<and> ?T i m)"
  proof
    assume "length g > 1"
    then have "filter (\<lambda>k. ?T i k) [i + 1..<length ps] \<noteq> []" by (auto simp: g_def)
    then obtain m where "m \<in> set (filter (\<lambda>k. ?T i k) [i + 1..<length ps])"
      by (meson last_in_set)
    then have "m < length ps \<and> m \<noteq> i \<and> ?T i m" by auto
    then show "\<exists>m<length ps. m \<noteq> i \<and> ?T i m" by blast
  next
    assume "\<exists>m<length ps. m \<noteq> i \<and> ?T i m"
    then obtain m where m: "m < length ps" "m \<noteq> i" "?T i m" by blast
    with later [of m] have "m \<in> set (filter (\<lambda>k. ?T i k) [i + 1..<length ps])" by auto
    then have "0 < length (filter (\<lambda>k. ?T i k) [i + 1..<length ps])"
      by (rule length_pos_if_in_set)
    then show "length g > 1" by (simp add: g_def)
  qed
  have inP': "\<And>k. k < length ps \<Longrightarrow> ?N k \<in> P' \<longleftrightarrow> ?N k \<in> P \<or> ?T i k"
  proof -
    fix k assume k: "k < length ps"
    show "?N k \<in> P' \<longleftrightarrow> ?N k \<in> P \<or> ?T i k"
    proof
      assume "?N k \<in> P'"
      then consider "?N k \<in> P" | c where "c \<in> C" "?N k = ?N c" by (auto simp: P'_def)
      then show "?N k \<in> P \<or> ?T i k"
      proof cases
        case 1 then show ?thesis by simp
      next
        case 2
        then have "c < length ps" "?T i c" by (simp_all add: C_def)
        with 2 k distinct_names_nth [OF d k, of c] show ?thesis by simp
      qed
    next
      assume "?N k \<in> P \<or> ?T i k"
      then show "?N k \<in> P'" using k by (auto simp: P'_def C_def)
    qed
  qed
  have closed': "\<forall>k<length ps. \<forall>m<length ps. ?T k m \<longrightarrow> (?N k \<in> P' \<longleftrightarrow> ?N m \<in> P')"
  proof (intro allI impI)
    fix k m assume k: "k < length ps" and m: "m < length ps" and t: "?T k m"
    have "?T i k \<longleftrightarrow> ?T i m"
      using t arePlayersTied_trans arePlayersTied_sym by blast
    moreover have "?N k \<in> P \<longleftrightarrow> ?N m \<in> P" using closed k m t by blast
    ultimately show "?N k \<in> P' \<longleftrightarrow> ?N m \<in> P'"
      by (simp add: inP' [OF k] inP' [OF m])
  qed
  have cover': "\<forall>k<length ps. k < i + 1 \<longrightarrow> ?N k \<in> P'"
  proof (intro allI impI)
    fix k assume k: "k < length ps" "k < i + 1"
    show "?N k \<in> P'"
    proof (cases "k = i")
      case True then show ?thesis using inP' [OF il] by (simp add: arePlayersTied_refl)
    next
      case False
      with k have "k < i" by simp
      with cover k show ?thesis by (simp add: inP')
    qed
  qed
  have run: "tie_outer ps i (G, P) = tie_outer ps (i + 1) (if length g > 1 then G @ [g] else G, P')"
    using il np inner by (subst tie_outer_step) simp
  have inP'': "\<forall>k<length ps. ?N k \<in> P' \<longleftrightarrow> ?N k \<in> P \<or> ?T i k"
    using inP' by blast
  show ?thesis
    by (intro exI [of _ g] exI [of _ P'] conjI)
       (fact run setg [unfolded C_def] leng inP'' closed' cover')+
qed

lemma tie_outer_flagged:
  assumes d: "distinct (map name ps)"
  shows "\<lbrakk>\<forall>k<length ps. \<forall>m<length ps. arePlayersTied (ps ! k) (ps ! m) \<longrightarrow>
            (name (ps ! k) \<in> P \<longleftrightarrow> name (ps ! m) \<in> P);
          \<forall>k<length ps. k < i \<longrightarrow> name (ps ! k) \<in> P\<rbrakk> \<Longrightarrow>
     set (concat (tie_outer ps i (G, P))) =
       set (concat G) \<union>
       {k. k < length ps \<and> name (ps ! k) \<notin> P \<and>
           (\<exists>m<length ps. m \<noteq> k \<and> arePlayersTied (ps ! k) (ps ! m))}"
proof (induction "length ps - i" arbitrary: i G P)
  case 0
  then have il: "\<not> i < length ps" by simp
  with 0 have "\<forall>k<length ps. name (ps ! k) \<in> P" by auto
  then have e: "{k. k < length ps \<and> name (ps ! k) \<notin> P \<and>
           (\<exists>m<length ps. m \<noteq> k \<and> arePlayersTied (ps ! k) (ps ! m))} = {}" by auto
  have t: "tie_outer ps i (G, P) = G" using il by (subst tie_outer_step) simp
  show ?case unfolding t e by simp
next
  case (Suc n)
  then have il: "i < length ps" by simp
  have n: "n = length ps - (i + 1)" using Suc.hyps(2) by simp
  let ?N = "\<lambda>k. name (ps ! k)"
  let ?T = "\<lambda>k m. arePlayersTied (ps ! k) (ps ! m)"
  note closed = Suc.prems(1)
  note cover = Suc.prems(2)
  show ?case
  proof (cases "?N i \<in> P")
    case True
    have cover': "\<forall>k<length ps. k < i + 1 \<longrightarrow> ?N k \<in> P"
      using cover True by (auto simp: less_Suc_eq)
    have "tie_outer ps i (G, P) = tie_outer ps (i + 1) (G, P)"
      using il True by (subst tie_outer_step) simp
    then show ?thesis
      using Suc.hyps(1) [OF n closed cover', of G] by simp
  next
    case False
    from tie_outer_new_group [OF d closed cover il False, of G]
    obtain g P' where run:
        "tie_outer ps i (G, P) = tie_outer ps (i + 1) (if length g > 1 then G @ [g] else G, P')"
      and setg': "set g = {k. k < length ps \<and> ?T i k}"
      and leng: "length g > 1 \<longleftrightarrow> (\<exists>m<length ps. m \<noteq> i \<and> ?T i m)"
      and inP'': "\<forall>k<length ps. ?N k \<in> P' \<longleftrightarrow> ?N k \<in> P \<or> ?T i k"
      and closed': "\<forall>k<length ps. \<forall>m<length ps. ?T k m \<longrightarrow> (?N k \<in> P' \<longleftrightarrow> ?N m \<in> P')"
      and cover': "\<forall>k<length ps. k < i + 1 \<longrightarrow> ?N k \<in> P'"
      by (elim exE conjE) (rule that; assumption)
    define C where "C = {k. k < length ps \<and> ?T i k}"
    have setg: "set g = C" using setg' by (simp add: C_def)
    have inP': "\<And>k. k < length ps \<Longrightarrow> ?N k \<in> P' \<longleftrightarrow> ?N k \<in> P \<or> ?T i k"
      using inP'' by blast
    have unproc: "\<And>k. k < length ps \<Longrightarrow> ?T i k \<Longrightarrow> ?N k \<notin> P"
      using closed il False by blast
    define G' where "G' = (if length g > 1 then G @ [g] else G)"
    have "tie_outer ps i (G, P) = tie_outer ps (i + 1) (G', P')"
      using run by (simp add: G'_def)
    also have "set (concat \<dots>) = set (concat G') \<union>
       {k. k < length ps \<and> ?N k \<notin> P' \<and> (\<exists>m<length ps. m \<noteq> k \<and> ?T k m)}"
      by (rule Suc.hyps(1) [OF n closed' cover'])
    also have "\<dots> = set (concat G) \<union>
       {k. k < length ps \<and> ?N k \<notin> P \<and> (\<exists>m<length ps. m \<noteq> k \<and> ?T k m)}"
    proof (rule set_eqI)
      fix k
      have G': "k \<in> set (concat G') \<longleftrightarrow>
          k \<in> set (concat G) \<or> (k \<in> C \<and> (\<exists>m<length ps. m \<noteq> i \<and> ?T i m))"
        using leng setg by (auto simp: G'_def)
      have partner: "k \<in> C \<Longrightarrow> (\<exists>m<length ps. m \<noteq> i \<and> ?T i m) \<longleftrightarrow> (\<exists>m<length ps. m \<noteq> k \<and> ?T k m)"
      proof -
        assume "k \<in> C"
        then have k: "k < length ps" "?T i k" by (simp_all add: C_def)
        show ?thesis
        proof
          assume "\<exists>m<length ps. m \<noteq> i \<and> ?T i m"
          then obtain m where m: "m < length ps" "m \<noteq> i" "?T i m" by blast
          show "\<exists>m<length ps. m \<noteq> k \<and> ?T k m"
          proof (cases "k = i")
            case True with m show ?thesis by blast
          next
            case False
            have "?T k i" using k(2) by (rule arePlayersTied_sym)
            with False il show ?thesis by blast
          qed
        next
          assume "\<exists>m<length ps. m \<noteq> k \<and> ?T k m"
          then obtain m where m: "m < length ps" "m \<noteq> k" "?T k m" by blast
          show "\<exists>m<length ps. m \<noteq> i \<and> ?T i m"
          proof (cases "k = i")
            case True with m show ?thesis by blast
          next
            case False
            with k show ?thesis by blast
          qed
        qed
      qed
      show "k \<in> set (concat G') \<union>
          {k. k < length ps \<and> ?N k \<notin> P' \<and> (\<exists>m<length ps. m \<noteq> k \<and> ?T k m)}
        \<longleftrightarrow> k \<in> set (concat G) \<union>
          {k. k < length ps \<and> ?N k \<notin> P \<and> (\<exists>m<length ps. m \<noteq> k \<and> ?T k m)}"
      proof (cases "k < length ps \<and> ?T i k")
        case True
        then have kC: "k \<in> C" by (simp add: C_def)
        have "?N k \<in> P'" "?N k \<notin> P" using True inP' unproc by simp_all
        then show ?thesis using G' partner [OF kC] kC True by auto
      next
        case False
        then have kC: "k \<notin> C" by (simp add: C_def)
        have "k < length ps \<Longrightarrow> (?N k \<in> P' \<longleftrightarrow> ?N k \<in> P)"
          using False inP' by simp
        then show ?thesis using G' kC by auto
      qed
    qed
    finally show ?thesis .
  qed
qed



lemma findTieGroups_flagged:
  assumes "distinct (map name ps)"
  shows "set (concat (findTieGroups ps)) =
     {k. k < length ps \<and> (\<exists>m<length ps. m \<noteq> k \<and> arePlayersTied (ps ! k) (ps ! m))}"
  using tie_outer_flagged [OF assms, of "{}" 0 "[]"] by (simp add: findTieGroups_def)











lemma tie_group_partner:
  assumes g: "tie_group xs S" and c: "2 \<le> card S" and i: "i \<in> S"
  shows "\<exists>m<length xs. m \<noteq> i \<and> arePlayersTied (xs ! i) (xs ! m)"
proof -
  have "S - {i} \<noteq> {}"
  proof
    assume "S - {i} = {}"
    then have "S \<subseteq> {i}" by blast
    then have "card S \<le> card {i}" by (intro card_mono) simp_all
    with c show False by simp
  qed
  then obtain m where m: "m \<in> S" "m \<noteq> i" by blast
  with g i have "m < length xs" "arePlayersTied (xs ! i) (xs ! m)"
    by (auto simp: tie_group_def)
  with m show ?thesis by blast
qed




lemma class_tie_group:
  assumes "i < length xs"
  shows "tie_group xs {k. k < length xs \<and> arePlayersTied (xs ! i) (xs ! k)}"
  unfolding tie_group_def
proof (intro conjI ballI allI impI)
  show "{k. k < length xs \<and> arePlayersTied (xs ! i) (xs ! k)} \<subseteq> {..<length xs}" by auto
next
  fix a b
  assume "a \<in> {k. k < length xs \<and> arePlayersTied (xs ! i) (xs ! k)}"
    "b \<in> {k. k < length xs \<and> arePlayersTied (xs ! i) (xs ! k)}"
  then have "arePlayersTied (xs ! i) (xs ! a)" "arePlayersTied (xs ! i) (xs ! b)" by simp_all
  then show "arePlayersTied (xs ! a) (xs ! b)"
    using arePlayersTied_sym arePlayersTied_trans by blast
next
  fix k
  assume k: "k < length xs"
    and all: "\<forall>a\<in>{k. k < length xs \<and> arePlayersTied (xs ! i) (xs ! k)}. arePlayersTied (xs ! a) (xs ! k)"
  have "i \<in> {k. k < length xs \<and> arePlayersTied (xs ! i) (xs ! k)}"
    using assms by (simp add: arePlayersTied_refl)
  with all have "arePlayersTied (xs ! i) (xs ! k)" by blast
  with k show "k \<in> {k. k < length xs \<and> arePlayersTied (xs ! i) (xs ! k)}" by simp
qed

lemma tie_group_class:
  assumes g: "tie_group xs S" and i: "i \<in> S"
  shows "S = {k. k < length xs \<and> arePlayersTied (xs ! i) (xs ! k)}"
proof (rule set_eqI)
  fix k
  show "k \<in> S \<longleftrightarrow> k \<in> {k. k < length xs \<and> arePlayersTied (xs ! i) (xs ! k)}"
  proof
    assume "k \<in> S"
    with g i show "k \<in> {k. k < length xs \<and> arePlayersTied (xs ! i) (xs ! k)}"
      by (auto simp: tie_group_def)
  next
    assume "k \<in> {k. k < length xs \<and> arePlayersTied (xs ! i) (xs ! k)}"
    then have k: "k < length xs" "arePlayersTied (xs ! i) (xs ! k)" by simp_all
    have "\<forall>a\<in>S. arePlayersTied (xs ! a) (xs ! k)"
    proof
      fix a assume "a \<in> S"
      with g i have "arePlayersTied (xs ! a) (xs ! i)" by (simp add: tie_group_def)
      then show "arePlayersTied (xs ! a) (xs ! k)" using k(2) by (rule arePlayersTied_trans)
    qed
    with g k(1) show "k \<in> S" by (simp add: tie_group_def)
  qed
qed

lemma class_card:
  assumes "i < length xs" "m < length xs" "m \<noteq> i" "arePlayersTied (xs ! i) (xs ! m)"
  shows "2 \<le> card {k. k < length xs \<and> arePlayersTied (xs ! i) (xs ! k)}"
proof -
  let ?S = "{k. k < length xs \<and> arePlayersTied (xs ! i) (xs ! k)}"
  have "{i, m} \<subseteq> ?S" using assms by (simp add: arePlayersTied_refl)
  moreover have "finite ?S" by simp
  ultimately have "card {i, m} \<le> card ?S" by (rule card_mono [rotated])
  then show ?thesis using assms(3) by simp
qed

lemma tie_outer_groups:
  assumes d: "distinct (map name ps)"
  shows "\<lbrakk>\<forall>k<length ps. \<forall>m<length ps. arePlayersTied (ps ! k) (ps ! m) \<longrightarrow>
            (name (ps ! k) \<in> P \<longleftrightarrow> name (ps ! m) \<in> P);
          \<forall>k<length ps. k < i \<longrightarrow> name (ps ! k) \<in> P\<rbrakk> \<Longrightarrow>
     \<forall>g\<in>set (tie_outer ps i (G, P)).
       g \<in> set G \<or> (tie_group ps (set g) \<and> 2 \<le> card (set g))"
proof (induction "length ps - i" arbitrary: i G P)
  case 0
  then have "\<not> i < length ps" by simp
  then have "tie_outer ps i (G, P) = G" by (subst tie_outer_step) simp
  then show ?case by simp
next
  case (Suc n)
  then have il: "i < length ps" by simp
  have n: "n = length ps - (i + 1)" using Suc.hyps(2) by simp
  let ?N = "\<lambda>k. name (ps ! k)"
  let ?T = "\<lambda>k m. arePlayersTied (ps ! k) (ps ! m)"
  note closed = Suc.prems(1)
  note cover = Suc.prems(2)
  show ?case
  proof (cases "?N i \<in> P")
    case True
    have cover': "\<forall>k<length ps. k < i + 1 \<longrightarrow> ?N k \<in> P"
      using cover True by (auto simp: less_Suc_eq)
    have "tie_outer ps i (G, P) = tie_outer ps (i + 1) (G, P)"
      using il True by (subst tie_outer_step) simp
    then show ?thesis
      using Suc.hyps(1) [OF n closed cover', of G] by simp
  next
    case False
    from tie_outer_new_group [OF d closed cover il False, of G]
    obtain g P' where run:
        "tie_outer ps i (G, P) = tie_outer ps (i + 1) (if length g > 1 then G @ [g] else G, P')"
      and setg: "set g = {k. k < length ps \<and> ?T i k}"
      and leng: "length g > 1 \<longleftrightarrow> (\<exists>m<length ps. m \<noteq> i \<and> ?T i m)"
      and inP'': "\<forall>k<length ps. ?N k \<in> P' \<longleftrightarrow> ?N k \<in> P \<or> ?T i k"
      and closed': "\<forall>k<length ps. \<forall>m<length ps. ?T k m \<longrightarrow> (?N k \<in> P' \<longleftrightarrow> ?N m \<in> P')"
      and cover': "\<forall>k<length ps. k < i + 1 \<longrightarrow> ?N k \<in> P'"
      by (elim exE conjE) (rule that; assumption)
    define G' where "G' = (if length g > 1 then G @ [g] else G)"
    have IH: "\<forall>h\<in>set (tie_outer ps (i + 1) (G', P')).
        h \<in> set G' \<or> (tie_group ps (set h) \<and> 2 \<le> card (set h))"
      by (rule Suc.hyps(1) [OF n closed' cover'])
    have new: "length g > 1 \<Longrightarrow> tie_group ps (set g) \<and> 2 \<le> card (set g)"
    proof -
      assume "length g > 1"
      with leng obtain m where m: "m < length ps" "m \<noteq> i" "?T i m" by blast
      show ?thesis
        unfolding setg using class_tie_group [OF il] class_card [OF il m] by simp
    qed
    show ?thesis
    proof
      fix h assume "h \<in> set (tie_outer ps i (G, P))"
      then have "h \<in> set (tie_outer ps (i + 1) (G', P'))" by (simp add: run G'_def)
      with IH have "h \<in> set G' \<or> (tie_group ps (set h) \<and> 2 \<le> card (set h))" by blast
      then show "h \<in> set G \<or> (tie_group ps (set h) \<and> 2 \<le> card (set h))"
        using new by (auto simp: G'_def split: if_splits)
    qed
  qed
qed

lemma findTieGroups_groups:
  assumes d: "distinct (map name ps)"
  shows "\<forall>g\<in>set (findTieGroups ps). tie_group ps (set g) \<and> 2 \<le> card (set g)"
  using tie_outer_groups [OF d, of "{}" 0 "[]"] by (simp add: findTieGroups_def)

lemma findTieGroups_complete:
  assumes d: "distinct (map name ps)" and S: "tie_group ps S" "2 \<le> card S"
  shows "\<exists>g\<in>set (findTieGroups ps). set g = S"
proof -
  from S(2) have "S \<noteq> {}" by auto
  then obtain i where i: "i \<in> S" by blast
  from tie_group_partner [OF S i] S(1) i
  have "i \<in> {k. k < length ps \<and> (\<exists>m<length ps. m \<noteq> k \<and> arePlayersTied (ps ! k) (ps ! m))}"
    by (auto simp: tie_group_def)
  then have "i \<in> set (concat (findTieGroups ps))"
    by (simp only: findTieGroups_flagged [OF d])
  then obtain g where g: "g \<in> set (findTieGroups ps)" "i \<in> set g" by auto
  with findTieGroups_groups [OF d] have "tie_group ps (set g)" by blast
  then have "set g = {k. k < length ps \<and> arePlayersTied (ps ! i) (ps ! k)}"
    using g(2) by (rule tie_group_class)
  also have "\<dots> = S" using tie_group_class [OF S(1) i] by simp
  finally show ?thesis using g(1) by blast
qed


section \<open>The frequency table and the detailed countback\<close>

lemma frequency_fold_distinct:
  "distinct (map fst f) \<Longrightarrow>
   distinct (map fst (fold (\<lambda>score frequency.
       if score > 0 then AList.update score (get_or_zero frequency score + 1) frequency
       else frequency) xs f))"
  by (induction xs arbitrary: f) (simp_all add: distinct_update)

lemma frequency_fold_map_of:
  "map_of (fold (\<lambda>score frequency.
       if score > 0 then AList.update score (get_or_zero frequency score + 1) frequency
       else frequency) xs f) k =
     (if 0 < k \<and> k \<in> set xs then Some (get_or_zero f k + count_list xs k) else map_of f k)"
proof (induction xs arbitrary: f)
  case Nil
  show ?case by simp
next
  case (Cons x xs)
  show ?case
  proof (cases "0 < x")
    case False
    then show ?thesis using Cons.IH [of f] by auto
  next
    case True
    let ?f = "AList.update x (get_or_zero f x + 1) f"
    have g: "get_or_zero ?f k = (if k = x then get_or_zero f x + 1 else get_or_zero f k)"
      by (simp add: get_or_zero_def update_conv')
    have m: "map_of ?f k = (if k = x then Some (get_or_zero f x + 1) else map_of f k)"
      by (simp add: update_conv')
    show ?thesis using True Cons.IH [of ?f] g m by auto
  qed
qed

lemma getScoreFrequency_distinct: "distinct (map fst (getScoreFrequency p))"
  unfolding getScoreFrequency_def by (rule frequency_fold_distinct) simp

lemma getScoreFrequency_map_of:
  "map_of (getScoreFrequency p) k =
     (if 0 < k \<and> k \<in> set (eventScores p) then Some (count_list (eventScores p) k) else None)"
  unfolding getScoreFrequency_def frequency_fold_map_of by (simp add: get_or_zero_def)

lemma compare_entries_less_iff:
  "compare_entries a b < 0 \<longleftrightarrow> fst b < fst a \<or> (fst a = fst b \<and> snd b < snd a)"
  by (auto simp: compare_entries_def)

lemma compare_entries_pos_iff:
  "0 < compare_entries a b \<longleftrightarrow> fst a < fst b \<or> (fst a = fst b \<and> snd a < snd b)"
  by (auto simp: compare_entries_def)

lemma compare_entries_le_iff:
  "compare_entries a b \<le> 0 \<longleftrightarrow> fst b < fst a \<or> (fst a = fst b \<and> snd b \<le> snd a)"
  by (auto simp: compare_entries_def)

lemma consistent_compare_entries: "consistent_comparator compare_entries"
  unfolding consistent_comparator_def compare_entries_less_iff compare_entries_pos_iff
    compare_entries_le_iff
  by auto

lemma sorted_entries_keys:
  assumes d: "distinct (map fst F)"
  shows "sorted_wrt (\<lambda>a b. fst b < fst a) (array_sort compare_entries F)"
proof -
  let ?S = "array_sort compare_entries F"
  have s: "sorted_wrt (\<lambda>a b. compare_entries a b \<le> 0) ?S"
    by (rule sorted_array_sort [OF consistent_compare_entries])
  have "mset (map fst ?S) = mset (map fst F)"
    using mset_array_sort [of compare_entries F] by (metis mset_map)
  then have dS: "distinct (map fst ?S)" using d by (metis mset_eq_imp_distinct_iff)
  show ?thesis
    unfolding sorted_wrt_iff_nth_less
  proof (intro allI impI)
    fix i j assume ij: "i < j" "j < length ?S"
    then have "compare_entries (?S ! i) (?S ! j) \<le> 0"
      using s by (simp add: sorted_wrt_iff_nth_less)
    moreover have "fst (?S ! i) \<noteq> fst (?S ! j)"
      using nth_eq_iff_index_eq [OF dS, of i j] ij by simp
    ultimately show "fst (?S ! j) < fst (?S ! i)"
      by (auto simp: compare_entries_le_iff)
  qed
qed

lemma set_expand_entries:
  "x \<in> set (expand_entries F) \<Longrightarrow> x \<in> fst ` set F"
  by (force simp: expand_entries_def)

lemma expand_entries_Cons:
  "expand_entries ((k, c) # F) = replicate c k @ expand_entries F"
  by (simp add: expand_entries_def)

lemma sorted_desc_replicate: "sorted_wrt (\<ge>) (replicate c (k::number))"
  by (induction c) auto

lemma count_list_filter: "count_list (filter P xs) x = (if P x then count_list xs x else 0)"
  by (induction xs) auto

lemma sorted_expand_entries:
  "sorted_wrt (\<lambda>a b. fst b < fst a) F \<Longrightarrow> sorted_wrt (\<ge>) (expand_entries F)"
proof (induction F)
  case Nil
  show ?case by (simp add: expand_entries_def)
next
  case (Cons e F)
  obtain k c where e: "e = (k, c)" by (cases e)
  have "\<forall>y\<in>set (expand_entries F). y < k"
    using Cons.prems e set_expand_entries [of _ F] by auto
  then show ?case
    using Cons e by (auto simp: expand_entries_Cons sorted_wrt_append sorted_desc_replicate)
qed

lemma count_expand_entries:
  "distinct (map fst F) \<Longrightarrow>
   count (mset (expand_entries F)) x = (case map_of F x of None \<Rightarrow> 0 | Some c \<Rightarrow> c)"
proof (induction F)
  case Nil
  show ?case by (simp add: expand_entries_def)
next
  case (Cons e F)
  obtain k c where e: "e = (k, c)" by (cases e)
  from Cons.prems e have "k \<notin> fst ` set F" by auto
  then have none: "map_of F k = None" by (simp add: map_of_eq_None_iff)
  show ?case
    using Cons e none by (auto simp: expand_entries_Cons)
qed

lemma expand_sorted_frequency:
  "expand_entries (array_sort compare_entries (getScoreFrequency p))
     = positive_sorted (eventScores p)"
proof (rule sorted_desc_unique)
  let ?F = "getScoreFrequency p"
  let ?S = "array_sort compare_entries ?F"
  show "sorted_wrt (\<ge>) (expand_entries ?S)"
    by (intro sorted_expand_entries sorted_entries_keys getScoreFrequency_distinct)
  show "sorted_wrt (\<ge>) (positive_sorted (eventScores p))"
    by (rule sorted_positive_sorted)
  have "mset (map fst ?S) = mset (map fst ?F)"
    using mset_array_sort [of compare_entries ?F] by (metis mset_map)
  then have dS: "distinct (map fst ?S)"
    using getScoreFrequency_distinct [of p] by (metis mset_eq_imp_distinct_iff)
  have "set ?S = set ?F" by (rule set_array_sort)
  then have mo: "map_of ?S = map_of ?F"
    using map_of_inject_set [OF dS getScoreFrequency_distinct] by simp
  show "mset (expand_entries ?S) = mset (positive_sorted (eventScores p))"
  proof (rule multiset_eqI)
    fix x
    show "count (mset (expand_entries ?S)) x = count (mset (positive_sorted (eventScores p))) x"
      unfolding count_expand_entries [OF dS] mo getScoreFrequency_map_of mset_positive_sorted
      by (auto simp: count_mset count_list_filter simp flip: mset_filter)
  qed
qed



lemma sorted_frequency_positive:
  assumes "e \<in> set (array_sort compare_entries (getScoreFrequency p))"
  shows "0 < fst e \<and> 0 < snd e"
proof -
  obtain k c where e: "e = (k, c)" by (cases e)
  from assms have "(k, c) \<in> set (getScoreFrequency p)" by (simp add: set_array_sort e)
  then have "map_of (getScoreFrequency p) k = Some c"
    using getScoreFrequency_distinct [of p] by simp
  then have "0 < k \<and> k \<in> set (eventScores p) \<and> c = count_list (eventScores p) k"
    unfolding getScoreFrequency_map_of by (auto split: if_splits)
  then show ?thesis using e by (auto simp: count_list_0_iff neq0_conv [symmetric] simp del: neq0_conv)
qed

lemma lex_compare_replicate_same:
  "lex_compare (replicate c k @ A) (replicate c k @ B) = lex_compare A B"
  by (induction c) simp_all

lemma lex_compare_replicate_more:
  "c2 < c1 \<Longrightarrow> \<forall>y\<in>set B. y < k \<Longrightarrow>
   lex_compare (replicate c1 k @ A) (replicate c2 k @ B) = -1"
proof (induction c2 arbitrary: c1)
  case 0
  then obtain c where "c1 = Suc c" by (cases c1) auto
  with 0 show ?case by (cases B) auto
next
  case (Suc c2)
  then obtain c where "c1 = Suc c" by (cases c1) auto
  with Suc show ?case by simp
qed

lemma lex_compare_replicate_fewer:
  "c1 < c2 \<Longrightarrow> \<forall>y\<in>set A. y < k \<Longrightarrow>
   lex_compare (replicate c1 k @ A) (replicate c2 k @ B) = 1"
proof (induction c1 arbitrary: c2)
  case 0
  then obtain c where "c2 = Suc c" by (cases c2) auto
  with 0 show ?case by (cases A) auto
next
  case (Suc c1)
  then obtain c where "c2 = Suc c" by (cases c2) auto
  with Suc show ?case by simp
qed

lemma expand_entries_Nil: "expand_entries [] = []"
  by (simp add: expand_entries_def)

lemma expand_drop:
  "i < length S \<Longrightarrow>
   expand_entries (drop i S) = replicate (snd (S ! i)) (fst (S ! i)) @ expand_entries (drop (Suc i) S)"
  by (simp add: Cons_nth_drop_Suc [symmetric] expand_entries_def split: prod.splits)

lemma expand_drop_below:
  assumes s: "sorted_wrt (\<lambda>a b. fst b < fst a) S" and i: "i < length S"
  shows "\<forall>y\<in>set (expand_entries (drop (Suc i) S)). y < fst (S ! i)"
proof
  fix y assume "y \<in> set (expand_entries (drop (Suc i) S))"
  then have "y \<in> fst ` set (drop (Suc i) S)" by (rule set_expand_entries)
  then obtain e where e: "e \<in> set (drop (Suc i) S)" "y = fst e" by blast
  from in_set_drop_nth [OF e(1)] obtain j where j: "Suc i \<le> j" "j < length S" "e = S ! j"
    by blast
  then have "fst (S ! j) < fst (S ! i)"
    using s by (simp add: sorted_wrt_iff_nth_less)
  with e j show "y < fst (S ! i)" by simp
qed

lemma detailed_loop_lex:
  assumes s1: "sorted_wrt (\<lambda>a b. fst b < fst a) S1" and s2: "sorted_wrt (\<lambda>a b. fst b < fst a) S2"
    and p1: "\<forall>e\<in>set S1. 0 < fst e \<and> 0 < snd e" and p2: "\<forall>e\<in>set S2. 0 < fst e \<and> 0 < snd e"
  shows "detailed_loop S1 S2 (max (length S1) (length S2)) i
           = lex_compare (expand_entries (drop i S1)) (expand_entries (drop i S2))"
proof (induction "max (length S1) (length S2) - i" arbitrary: i)
  case 0
  then have "drop i S1 = []" "drop i S2 = []" "\<not> i < max (length S1) (length S2)" by auto
  then show ?case by (subst detailed_loop.simps) (simp add: expand_entries_Nil)
next
  case (Suc n)
  let ?m = "max (length S1) (length S2)"
  from Suc.hyps(2) have im: "i < ?m" by auto
  have n: "n = ?m - Suc i" using Suc.hyps(2) by simp
  have unfold: "detailed_loop S1 S2 ?m i =
      (case detailed_body S1 S2 i of Some r \<Rightarrow> r | None \<Rightarrow> detailed_loop S1 S2 ?m (Suc i))"
    using im by (subst detailed_loop.simps) (simp split: option.split)
  consider (short1) "length S1 \<le> i" "i < length S2"
    | (short2) "length S2 \<le> i" "i < length S1"
    | (both) "i < length S1" "i < length S2"
    using im by linarith
  then show ?case
  proof cases
    case short1
    obtain k c where e: "S2 ! i = (k, c)" by (cases "S2 ! i")
    with p2 short1 have pos: "0 < k" "0 < c" by (metis fst_conv snd_conv nth_mem)+
    then obtain c' where c: "c = Suc c'" by (cases c) auto
    have "detailed_body S1 S2 i = Some 1"
      using short1 e pos by (simp add: detailed_body_def entry_or_zero_def)
    moreover have "lex_compare (expand_entries (drop i S1)) (expand_entries (drop i S2)) = 1"
      using short1 e c by (simp add: expand_drop expand_entries_Nil)
    ultimately show ?thesis by (simp add: unfold)
  next
    case short2
    obtain k c where e: "S1 ! i = (k, c)" by (cases "S1 ! i")
    with p1 short2 have pos: "0 < k" "0 < c" by (metis fst_conv snd_conv nth_mem)+
    then obtain c' where c: "c = Suc c'" by (cases c) auto
    have "detailed_body S1 S2 i = Some (-1)"
      using short2 e pos by (simp add: detailed_body_def entry_or_zero_def)
    moreover have "lex_compare (expand_entries (drop i S1)) (expand_entries (drop i S2)) = -1"
      using short2 e c by (simp add: expand_drop expand_entries_Nil)
    ultimately show ?thesis by (simp add: unfold)
  next
    case both
    obtain k1 c1 where e1: "S1 ! i = (k1, c1)" by (cases "S1 ! i")
    obtain k2 c2 where e2: "S2 ! i = (k2, c2)" by (cases "S2 ! i")
    from p1 both e1 have "0 < c1" by (metis snd_conv nth_mem)
    then obtain c1' where c1: "c1 = Suc c1'" by (cases c1) auto
    from p2 both e2 have "0 < c2" by (metis snd_conv nth_mem)
    then obtain c2' where c2: "c2 = Suc c2'" by (cases c2) auto
    let ?R1 = "expand_entries (drop (Suc i) S1)"
    let ?R2 = "expand_entries (drop (Suc i) S2)"
    have x1: "expand_entries (drop i S1) = replicate c1 k1 @ ?R1"
      using expand_drop [OF both(1)] e1 by simp
    have x2: "expand_entries (drop i S2) = replicate c2 k2 @ ?R2"
      using expand_drop [OF both(2)] e2 by simp
    have b1: "\<forall>y\<in>set ?R1. y < k1" using expand_drop_below [OF s1 both(1)] e1 by simp
    have b2: "\<forall>y\<in>set ?R2. y < k2" using expand_drop_below [OF s2 both(2)] e2 by simp
    have body: "detailed_body S1 S2 i =
        (if k1 > k2 then Some (-1) else if k2 > k1 then Some 1
         else if c1 > c2 then Some (-1) else if c2 > c1 then Some 1 else None)"
      using both e1 e2 by (simp add: detailed_body_def entry_or_zero_def)
    consider (gt) "k2 < k1" | (lt) "k1 < k2" | (eq) "k1 = k2" by linarith
    then show ?thesis
    proof cases
      case gt
      then show ?thesis unfolding unfold body x1 x2 c1 c2 by simp
    next
      case lt
      then show ?thesis unfolding unfold body x1 x2 c1 c2 by simp
    next
      case eq
      consider (more) "c2 < c1" | (fewer) "c1 < c2" | (same) "c1 = c2" by linarith
      then show ?thesis
      proof cases
        case more
        have "lex_compare (replicate c1 k1 @ ?R1) (replicate c2 k1 @ ?R2) = -1"
          using more b2 eq by (intro lex_compare_replicate_more) simp_all
        then show ?thesis unfolding unfold body x1 x2 using eq more by simp
      next
        case fewer
        have "lex_compare (replicate c1 k1 @ ?R1) (replicate c2 k1 @ ?R2) = 1"
          using fewer b1 by (intro lex_compare_replicate_fewer) simp_all
        then show ?thesis unfolding unfold body x1 x2 using eq fewer by simp
      next
        case same
        have "detailed_loop S1 S2 ?m i = detailed_loop S1 S2 ?m (Suc i)"
          unfolding unfold body using eq same by simp
        also have "\<dots> = lex_compare ?R1 ?R2" by (rule Suc.hyps(1) [OF n])
        also have "\<dots> = lex_compare (expand_entries (drop i S1)) (expand_entries (drop i S2))"
          unfolding x1 x2 using eq same by (simp add: lex_compare_replicate_same)
        finally show ?thesis .
      qed
    qed
  qed
qed

section \<open>Claims\<close>

text \<open>
  C7. Appending any number of zero-valued scores to the \<open>eventScores\<close> of either
  competitor leaves the value of \<open>countbackCompare\<close> unchanged.
\<close>

theorem countbackCompare_zero_padding:
  "countbackCompare (a\<lparr>eventScores := eventScores a @ replicate n 0\<rparr>)
                    (b\<lparr>eventScores := eventScores b @ replicate m 0\<rparr>)
     = countbackCompare a b"
  by (simp add: countbackCompare_def positive_sorted_def)


text \<open>
  C10. \<open>countbackCompare a b = 0\<close> exactly when the multisets of strictly positive
  entries of the two \<open>eventScores\<close> are equal; hence "fully tied" (\<open>arePlayersTied\<close>) is
  reflexive, symmetric and transitive. On an array with pairwise different names the
  single pass of \<open>findTieGroups\<close> therefore returns the maximal tie groups: every group
  it returns is a tie group of two or more positions, and every such tie group is
  returned.
\<close>

theorem fully_tied_equivalence:
  "(countbackCompare a b = 0 \<longleftrightarrow>
      mset (filter (\<lambda>s. 0 < s) (eventScores a)) = mset (filter (\<lambda>s. 0 < s) (eventScores b))) \<and>
   arePlayersTied a a \<and>
   (arePlayersTied a b \<longrightarrow> arePlayersTied b a) \<and>
   (arePlayersTied a b \<and> arePlayersTied b c \<longrightarrow> arePlayersTied a c) \<and>
   (distinct (map name players) \<longrightarrow>
      (\<forall>g\<in>set (findTieGroups players). tie_group players (set g) \<and> 2 \<le> card (set g)) \<and>
      (\<forall>S. tie_group players S \<and> 2 \<le> card S \<longrightarrow>
         (\<exists>g\<in>set (findTieGroups players). set g = S)))"
proof -
  have "distinct (map name players) \<longrightarrow>
      (\<forall>g\<in>set (findTieGroups players). tie_group players (set g) \<and> 2 \<le> card (set g)) \<and>
      (\<forall>S. tie_group players S \<and> 2 \<le> card S \<longrightarrow>
         (\<exists>g\<in>set (findTieGroups players). set g = S))"
    using findTieGroups_groups [of players] findTieGroups_complete [of players] by blast
  then show ?thesis
    by (simp add: countbackCompare_zero_iff positive_sorted_eq_iff arePlayersTied_iff)
qed

theorem fully_tied_equivalence_witness:
  "arePlayersTied player_A player_B \<and> arePlayersTied player_B player_G \<and>
   arePlayersTied player_B player_A \<and> arePlayersTied player_A player_G \<and>
   countbackCompare player_A player_B = 0 \<and>
   distinct (map name example_players) \<and>
   findTieGroups example_players = [[0, 2]] \<and>
   tie_group example_players (set [0, 2])"
proof -
  have ab: "arePlayersTied player_A player_B" by code_simp
  have bg: "arePlayersTied player_B player_G" by code_simp
  have cb: "countbackCompare player_A player_B = 0" by code_simp
  have d: "distinct (map name example_players)" by code_simp
  have f: "findTieGroups example_players = [[0, 2]]" by code_simp
  note inst = fully_tied_equivalence [of player_A player_B player_G example_players]
  have "\<forall>g\<in>set (findTieGroups example_players).
      tie_group example_players (set g) \<and> 2 \<le> card (set g)"
    using inst d by blast
  then have g: "tie_group example_players (set [0, 2])"
    unfolding f by simp
  from inst ab bg cb d f g show ?thesis by blast
qed

text \<open>
  C5, as stated, fails in its last clause: the fourth level is \<open>localeCompare\<close>, which
  is a consistent comparison function and still returns 0 on some different names. Under
  a consistent name order that skips one character, A and a competitor that differs from
  A in that character of the name only compare as exactly equal, in both directions.
\<close>

theorem comparePlayers_equal_on_distinct_names_counterexample:
  "consistent_comparator ignorable_compare \<and>
   name player_A \<noteq> name player_A2 \<and>
   comparePlayers ignorable_compare player_A player_A2 = 0 \<and>
   comparePlayers ignorable_compare player_A2 player_A = 0 \<and>
   \<not> comparePlayers ignorable_compare player_A player_A2 < 0 \<and>
   \<not> comparePlayers ignorable_compare player_A2 player_A < 0"
proof -
  have "name player_A \<noteq> name player_A2" by code_simp
  moreover have "comparePlayers ignorable_compare player_A player_A2 = 0" by code_simp
  moreover have "comparePlayers ignorable_compare player_A2 player_A = 0" by code_simp
  ultimately show ?thesis using consistent_ignorable_compare by simp
qed

text \<open>
  C5, amended. For a name order that is a consistent comparison function (the contract
  of \<open>localeCompare\<close>), the comparator of \<open>sortPlayers\<close> is irreflexive and transitive;
  two competitors compare as exactly equal exactly when they tie on total points, total
  spending and countback and the name order returns 0 on their names; and of two
  competitors whose names the name order tells apart, one ranks above the other.
\<close>

theorem comparePlayers_strict_order:
  assumes "consistent_comparator localeCompare"
  shows "\<not> comparePlayers localeCompare a a < 0 \<and>
         (comparePlayers localeCompare a b < 0 \<and> comparePlayers localeCompare b c < 0
            \<longrightarrow> comparePlayers localeCompare a c < 0) \<and>
         (comparePlayers localeCompare a b = 0 \<longleftrightarrow>
            totalPoints a = totalPoints b \<and> totalSpending a = totalSpending b \<and>
            countbackCompare a b = 0 \<and> localeCompare (name a) (name b) = 0) \<and>
         (localeCompare (name a) (name b) \<noteq> 0
            \<longrightarrow> comparePlayers localeCompare a b < 0 \<or> comparePlayers localeCompare b a < 0)"
proof -
  note cp = consistent_comparePlayers [OF assms]
  have irrefl: "\<not> comparePlayers localeCompare a a < 0"
    using consistent_refl [OF cp, of a] by simp
  have trans: "comparePlayers localeCompare a b < 0 \<and> comparePlayers localeCompare b c < 0
      \<longrightarrow> comparePlayers localeCompare a c < 0"
    using consistent_less_trans [OF cp] by blast
  have eq: "comparePlayers localeCompare a b = 0 \<longleftrightarrow>
      totalPoints a = totalPoints b \<and> totalSpending a = totalSpending b \<and>
      countbackCompare a b = 0 \<and> localeCompare (name a) (name b) = 0"
    by (simp add: comparePlayers_zero_iff countbackCompare_zero_iff)
  have total: "localeCompare (name a) (name b) \<noteq> 0
      \<longrightarrow> comparePlayers localeCompare a b < 0 \<or> comparePlayers localeCompare b a < 0"
  proof
    assume "localeCompare (name a) (name b) \<noteq> 0"
    with eq have "comparePlayers localeCompare a b \<noteq> 0" by simp
    then consider "comparePlayers localeCompare a b < 0" | "0 < comparePlayers localeCompare a b"
      by linarith
    then show "comparePlayers localeCompare a b < 0 \<or> comparePlayers localeCompare b a < 0"
      using consistent_flip [OF cp, of b a] by cases simp_all
  qed
  from irrefl trans eq total show ?thesis by (intro conjI)
qed

theorem comparePlayers_strict_order_witness:
  "consistent_comparator ordinal_compare \<and>
   comparePlayers ordinal_compare player_D player_C < 0 \<and>
   comparePlayers ordinal_compare player_C player_A < 0 \<and>
   comparePlayers ordinal_compare player_D player_A < 0 \<and>
   \<not> comparePlayers ordinal_compare player_D player_D < 0 \<and>
   ordinal_compare (name player_A) (name player_B) \<noteq> 0 \<and>
   comparePlayers ordinal_compare player_A player_B < 0"
proof -
  have dc: "comparePlayers ordinal_compare player_D player_C < 0"
    by (simp add: comparePlayers_def player_D_def player_C_def)
  have ca: "comparePlayers ordinal_compare player_C player_A < 0"
    by (simp add: comparePlayers_def player_C_def player_A_def)
  have ab: "ordinal_compare (name player_A) (name player_B) \<noteq> 0"
    by code_simp
  have ba: "\<not> comparePlayers ordinal_compare player_B player_A < 0"
    by code_simp
  from comparePlayers_strict_order
         [OF consistent_ordinal_compare, of player_D player_C player_A]
       comparePlayers_strict_order
         [OF consistent_ordinal_compare, of player_A player_B player_B]
       dc ca ab ba consistent_ordinal_compare
  show ?thesis by blast
qed

text \<open>
  C8. \<open>sortPlayers\<close> returns a permutation of the records it was given, and writes
  \<open>rank\<close> and \<open>isTied\<close> only: with these two fields blanked out, the records of the
  result are the records of the input, each as often as in the input; so are their
  names, event scores, event spendings and totals.
\<close>

theorem sortPlayers_frame:
  "mset (map unranked (sortPlayers localeCompare players)) = mset (map unranked players) \<and>
   mset (map (\<lambda>p. (name p, eventScores p, eventSpending p, totalPoints p, totalSpending p))
          (sortPlayers localeCompare players))
     = mset (map (\<lambda>p. (name p, eventScores p, eventSpending p, totalPoints p, totalSpending p))
          players)"
proof -
  let ?core = "\<lambda>p. (name p, eventScores p, eventSpending p, totalPoints p, totalSpending p)"
  have "mset (map unranked (array_sort (comparePlayers localeCompare) players))
          = mset (map unranked players)"
    using mset_array_sort [of "comparePlayers localeCompare" players]
    by (metis mset_map)
  then have u: "mset (map unranked (sortPlayers localeCompare players)) = mset (map unranked players)"
    by (simp add: sortPlayers_unranked)
  have core: "\<And>xs. mset (map ?core xs) = image_mset ?core (mset (map unranked xs))"
    by (simp add: multiset.map_comp comp_def unranked_def)
  have "mset (map ?core (sortPlayers localeCompare players))
          = image_mset ?core (mset (map unranked (sortPlayers localeCompare players)))"
    by (rule core)
  also have "\<dots> = image_mset ?core (mset (map unranked players))"
    by (simp only: u)
  also have "\<dots> = mset (map ?core players)"
    by (rule core [symmetric])
  finally show ?thesis using u by simp
qed

text \<open>
  C1. For a name order that is a consistent comparison function, \<open>sortPlayers\<close> returns
  the competitors ordered by the four-level comparator: of two competitors \<open>x\<close> before
  \<open>y\<close> in the result (adjacent or not), \<open>x\<close> has more total points, or the same points
  and less total spending, or both equal and \<open>countbackCompare x y < 0\<close>, or all three
  levels tie and the name of \<open>x\<close> does not come after the name of \<open>y\<close>. The comparator
  takes its value from the first level that differs: a level is consulted only when all
  higher levels are equal.
\<close>

theorem sortPlayers_ordered:
  assumes "consistent_comparator localeCompare"
  shows "(\<forall>i j. i < j \<and> j < length (sortPlayers localeCompare players) \<longrightarrow>
            (let x = sortPlayers localeCompare players ! i;
                 y = sortPlayers localeCompare players ! j
             in totalPoints x > totalPoints y \<or>
                (totalPoints x = totalPoints y \<and> totalSpending x < totalSpending y) \<or>
                (totalPoints x = totalPoints y \<and> totalSpending x = totalSpending y \<and>
                 countbackCompare x y < 0) \<or>
                (totalPoints x = totalPoints y \<and> totalSpending x = totalSpending y \<and>
                 countbackCompare x y = 0 \<and> localeCompare (name x) (name y) \<le> 0))) \<and>
         (\<forall>a b. comparePlayers localeCompare a b =
            (if totalPoints a \<noteq> totalPoints b then totalPoints b - totalPoints a
             else if totalSpending a \<noteq> totalSpending b then totalSpending a - totalSpending b
             else if countbackCompare a b \<noteq> 0 then countbackCompare a b
             else localeCompare (name a) (name b)))"
proof (intro conjI allI impI)
  fix i j
  assume ij: "i < j \<and> j < length (sortPlayers localeCompare players)"
  let ?x = "sortPlayers localeCompare players ! i"
  let ?y = "sortPlayers localeCompare players ! j"
  have "comparePlayers localeCompare ?x ?y \<le> 0"
    using sortPlayers_sorted [OF assms, of i j players] ij by simp
  then have "totalPoints ?x > totalPoints ?y \<or>
     (totalPoints ?x = totalPoints ?y \<and> totalSpending ?x < totalSpending ?y) \<or>
     (totalPoints ?x = totalPoints ?y \<and> totalSpending ?x = totalSpending ?y \<and>
      countbackCompare ?x ?y < 0) \<or>
     (totalPoints ?x = totalPoints ?y \<and> totalSpending ?x = totalSpending ?y \<and>
      countbackCompare ?x ?y = 0 \<and> localeCompare (name ?x) (name ?y) \<le> 0)"
    unfolding comparePlayers_le_iff countbackCompare_neg_iff countbackCompare_zero_iff
    by blast
  then show "let x = ?x; y = ?y
     in totalPoints x > totalPoints y \<or>
        (totalPoints x = totalPoints y \<and> totalSpending x < totalSpending y) \<or>
        (totalPoints x = totalPoints y \<and> totalSpending x = totalSpending y \<and>
         countbackCompare x y < 0) \<or>
        (totalPoints x = totalPoints y \<and> totalSpending x = totalSpending y \<and>
         countbackCompare x y = 0 \<and> localeCompare (name x) (name y) \<le> 0)"
    by (simp only: Let_def)
next
  fix a b
  show "comparePlayers localeCompare a b =
            (if totalPoints a \<noteq> totalPoints b then totalPoints b - totalPoints a
             else if totalSpending a \<noteq> totalSpending b then totalSpending a - totalSpending b
             else if countbackCompare a b \<noteq> 0 then countbackCompare a b
             else localeCompare (name a) (name b))"
    by (simp add: comparePlayers_def Let_def)
qed

theorem sortPlayers_ordered_witness:
  "consistent_comparator ordinal_compare \<and>
   map name (sortPlayers ordinal_compare example_players) = [''D'', ''A'', ''B'', ''E''] \<and>
   (let x = sortPlayers ordinal_compare example_players ! 1;
        y = sortPlayers ordinal_compare example_players ! 2
    in totalPoints x > totalPoints y \<or>
       (totalPoints x = totalPoints y \<and> totalSpending x < totalSpending y) \<or>
       (totalPoints x = totalPoints y \<and> totalSpending x = totalSpending y \<and>
        countbackCompare x y < 0) \<or>
       (totalPoints x = totalPoints y \<and> totalSpending x = totalSpending y \<and>
        countbackCompare x y = 0 \<and> ordinal_compare (name x) (name y) \<le> 0))"
proof -
  have names: "map name (sortPlayers ordinal_compare example_players) = [''D'', ''A'', ''B'', ''E'']"
    by code_simp
  have ij: "(1::nat) < 2 \<and> 2 < length (sortPlayers ordinal_compare example_players)"
    by (simp add: example_players_def)
  note ordered = sortPlayers_ordered [OF consistent_ordinal_compare, of example_players,
      THEN conjunct1, rule_format, OF ij]
  from ordered names consistent_ordinal_compare show ?thesis by blast
qed

text \<open>
  C2. After \<open>sortPlayers\<close> the first competitor has rank 1; the competitor at 1-based
  position \<open>k + 2\<close> has rank \<open>k + 2\<close> if it differs from its predecessor in total points,
  in total spending or under \<open>countbackCompare\<close>, and the rank of its predecessor
  otherwise (1, 2, 2, 4). For a consistent name order the rank of a competitor is one
  more than the number of competitors of the input that are ahead of it on the first
  three levels, a number in which no name occurs: the name order never affects a rank.
\<close>

theorem sortPlayers_ranks:
  "(players \<noteq> [] \<longrightarrow> rank (sortPlayers localeCompare players ! 0) = Some 1) \<and>
   (\<forall>k. Suc k < length (sortPlayers localeCompare players) \<longrightarrow>
      (let prev = sortPlayers localeCompare players ! k;
           cur = sortPlayers localeCompare players ! Suc k
       in rank cur =
            (if totalPoints prev \<noteq> totalPoints cur \<or> totalSpending prev \<noteq> totalSpending cur \<or>
                countbackCompare prev cur \<noteq> 0
             then Some (Suc k + 1) else rank prev))) \<and>
   (consistent_comparator localeCompare \<longrightarrow>
      (\<forall>p\<in>set (sortPlayers localeCompare players).
         rank p = Some (Suc (length (filter (\<lambda>q. outranks q p) players)))))"
proof (intro conjI allI impI ballI)
  assume "players \<noteq> []"
  then show "rank (sortPlayers localeCompare players ! 0) = Some 1"
    by (rule sortPlayers_rank_first)
next
  fix k assume "Suc k < length (sortPlayers localeCompare players)"
  then have k: "Suc k < length players" by simp
  have tied: "\<And>a b. (totalPoints a \<noteq> totalPoints b \<or> totalSpending a \<noteq> totalSpending b \<or>
      countbackCompare a b \<noteq> 0) = (\<not> arePlayersTied a b)"
    by (simp add: arePlayersTied_def)
  show "let prev = sortPlayers localeCompare players ! k;
            cur = sortPlayers localeCompare players ! Suc k
        in rank cur =
            (if totalPoints prev \<noteq> totalPoints cur \<or> totalSpending prev \<noteq> totalSpending cur \<or>
                countbackCompare prev cur \<noteq> 0
             then Some (Suc k + 1) else rank prev)"
    unfolding Let_def tied using sortPlayers_rank_next [OF k, of localeCompare] by simp
next
  fix p
  assume lc: "consistent_comparator localeCompare"
    and "p \<in> set (sortPlayers localeCompare players)"
  then obtain k where k: "k < length players" "p = sortPlayers localeCompare players ! k"
    by (auto simp: in_set_conv_nth)
  show "rank p = Some (Suc (length (filter (\<lambda>q. outranks q p) players)))"
    unfolding k(2)
    using sortPlayers_rank_count [OF lc k(1)]
    by (simp only: sortPlayers_outranks_count [symmetric])
qed

theorem sortPlayers_ranks_witness:
  "example_players \<noteq> [] \<and> consistent_comparator ordinal_compare \<and>
   map rank (sortPlayers ordinal_compare example_players) = [Some 1, Some 2, Some 2, Some 4] \<and>
   rank (sortPlayers ordinal_compare example_players ! 0) = Some 1 \<and>
   rank (sortPlayers ordinal_compare example_players ! 1) = Some 2 \<and>
   rank (sortPlayers ordinal_compare example_players ! 2)
     = rank (sortPlayers ordinal_compare example_players ! 1) \<and>
   rank (sortPlayers ordinal_compare example_players ! 3) = Some 4 \<and>
   rank (sortPlayers ordinal_compare example_players ! 3)
     = Some (Suc (length (filter (\<lambda>q. outranks q (sortPlayers ordinal_compare example_players ! 3))
                           example_players)))"
proof -
  let ?out = "sortPlayers ordinal_compare example_players"
  have ne: "example_players \<noteq> []" by (simp add: example_players_def)
  have ranks: "map rank ?out = [Some 1, Some 2, Some 2, Some 4]" by code_simp
  have len: "Suc 0 < length ?out" "Suc 1 < length ?out" "Suc 2 < length ?out" "3 < length ?out"
    by (simp_all add: example_players_def)
  have differ: "totalPoints (?out ! 0) \<noteq> totalPoints (?out ! Suc 0) \<or>
      totalSpending (?out ! 0) \<noteq> totalSpending (?out ! Suc 0) \<or>
      countbackCompare (?out ! 0) (?out ! Suc 0) \<noteq> 0"
    by code_simp
  have same: "\<not> (totalPoints (?out ! 1) \<noteq> totalPoints (?out ! Suc 1) \<or>
      totalSpending (?out ! 1) \<noteq> totalSpending (?out ! Suc 1) \<or>
      countbackCompare (?out ! 1) (?out ! Suc 1) \<noteq> 0)"
    by code_simp
  have differ3: "totalPoints (?out ! 2) \<noteq> totalPoints (?out ! Suc 2) \<or>
      totalSpending (?out ! 2) \<noteq> totalSpending (?out ! Suc 2) \<or>
      countbackCompare (?out ! 2) (?out ! Suc 2) \<noteq> 0"
    by code_simp
  note inst = sortPlayers_ranks [of example_players ordinal_compare]
  have first: "rank (?out ! 0) = Some 1"
    using inst ne by blast
  have second: "rank (?out ! 1) = Some 2"
    using inst [THEN conjunct2, THEN conjunct1, rule_format, OF len(1)] differ
    by (simp add: Let_def)
  have third: "rank (?out ! 2) = rank (?out ! 1)"
    using inst [THEN conjunct2, THEN conjunct1, rule_format, OF len(2)] same
    by (simp add: Let_def numeral_2_eq_2)
  have fourth: "rank (?out ! 3) = Some 4"
    using inst [THEN conjunct2, THEN conjunct1, rule_format, OF len(3)] differ3
    by (simp add: Let_def numeral_3_eq_3)
  have mem: "?out ! 3 \<in> set ?out" using len(4) by (rule nth_mem)
  have count: "rank (?out ! 3)
     = Some (Suc (length (filter (\<lambda>q. outranks q (?out ! 3)) example_players)))"
    using inst [THEN conjunct2, THEN conjunct2, rule_format, OF consistent_ordinal_compare mem] .
  from ne consistent_ordinal_compare ranks first second third fourth count show ?thesis by blast
qed



text \<open>
  C9. For all players \<open>countbackCompare p1 p2 = detailedCountback p1 p2\<close>: the walk over
  the descending profiles with its occurrence-count tiebreak returns the decision of the
  comparison of the (score, count) tables sorted by descending score.
\<close>

theorem countbackCompare_eq_detailedCountback:
  "countbackCompare p1 p2 = detailedCountback p1 p2"
proof -
  let ?S1 = "array_sort compare_entries (getScoreFrequency p1)"
  let ?S2 = "array_sort compare_entries (getScoreFrequency p2)"
  have "detailedCountback p1 p2 = detailed_loop ?S1 ?S2 (max (length ?S1) (length ?S2)) 0"
    by (simp add: detailedCountback_def Let_def)
  also have "\<dots> = lex_compare (expand_entries (drop 0 ?S1)) (expand_entries (drop 0 ?S2))"
    by (intro detailed_loop_lex sorted_entries_keys getScoreFrequency_distinct ballI
        sorted_frequency_positive)
  also have "\<dots> = lex_compare (positive_sorted (eventScores p1)) (positive_sorted (eventScores p2))"
    by (simp add: expand_sorted_frequency)
  also have "\<dots> = countbackCompare p1 p2"
    by (rule countbackCompare_lex [symmetric])
  finally show ?thesis by simp
qed


text \<open>
  C6. \<open>countbackCompare\<close> is to discard exactly the zero-valued entries, every entry
  whose value is not zero taking part in the comparison; the comment in the source says
  the same ("Get all non-zero scores for both players"). The code keeps the entries
  \<open>s > 0\<close>. At the scores \<open>[-5, 3]\<close> of N against \<open>[3]\<close> of P the entry \<open>-5\<close>
  is not zero and is dropped: the code's profile of N is \<open>[3]\<close>, not \<open>[3, -5]\<close>, and the
  code returns 0, where the walk over the profiles without the zeros only returns 1.
\<close>

theorem countbackCompare_drops_negative_entry:
  "eventScores player_N = [-5, 3] \<and> eventScores player_P = [3] \<and>
   positive_sorted (eventScores player_N) = [3] \<and>
   nonzero_sorted (eventScores player_N) = [3, -5] \<and>
   positive_sorted (eventScores player_N) \<noteq> nonzero_sorted (eventScores player_N) \<and>
   countbackCompare player_N player_P = 0 \<and>
   countback_loop (nonzero_sorted (eventScores player_N)) (nonzero_sorted (eventScores player_P))
     (max (length (nonzero_sorted (eventScores player_N)))
          (length (nonzero_sorted (eventScores player_P)))) 0 = 1"
  by code_simp

text \<open>
  C4, as stated, fails: \<open>sortPlayers\<close> has no validation and no failure path. Given a
  competitor with two event scores and one event spending it returns the competitor
  ranked first, and so does \<open>main\<close>; given the empty list it returns the empty list.
\<close>

theorem sortPlayers_rejection_counterexample:
  "contract_violation [player_M] \<and>
   sortPlayers ordinal_compare [player_M] = [player_M\<lparr>rank := Some 1\<rparr>] \<and>
   main_sort ordinal_compare [player_M] = Inr [player_M\<lparr>rank := Some 1\<rparr>] \<and>
   contract_violation [] \<and>
   sortPlayers ordinal_compare [] = []"
  by code_simp

text \<open>
  C4, amended. \<open>sortPlayers\<close> rejects nothing: for every input, contract-violating or
  not, it returns a list of the same length in which every competitor has a rank of at
  least 1, and the empty list for the empty input. The one rejection is in the caller:
  \<open>main\<close> fails with "No players found" exactly on the empty list, and passes every
  other input to \<open>sortPlayers\<close>.
\<close>

theorem sortPlayers_never_rejects:
  "length (sortPlayers localeCompare players) = length players \<and>
   (\<forall>p\<in>set (sortPlayers localeCompare players). \<exists>r. rank p = Some r \<and> 1 \<le> r) \<and>
   sortPlayers localeCompare [] = [] \<and>
   (main_sort localeCompare players = Inl NoPlayersFound \<longleftrightarrow> players = []) \<and>
   (players \<noteq> [] \<longrightarrow>
      main_sort localeCompare players = Inr (sortPlayers localeCompare players))"
proof (intro conjI ballI impI)
  show "length (sortPlayers localeCompare players) = length players" by simp
next
  fix p assume "p \<in> set (sortPlayers localeCompare players)"
  then obtain k where k: "k < length players" "p = sortPlayers localeCompare players ! k"
    by (auto simp: in_set_conv_nth)
  from sortPlayers_rank_set [OF k(1), of localeCompare] k(2)
  show "\<exists>r. rank p = Some r \<and> 1 \<le> r" by auto
next
  have "length (sortPlayers localeCompare []) = 0" by simp
  then show "sortPlayers localeCompare [] = []" by (simp only: length_0_conv)
next
  show "main_sort localeCompare players = Inl NoPlayersFound \<longleftrightarrow> players = []"
    by (simp add: main_sort_def)
next
  assume "players \<noteq> []"
  then show "main_sort localeCompare players = Inr (sortPlayers localeCompare players)"
    by (simp add: main_sort_def)
qed

theorem sortPlayers_never_rejects_witness:
  "contract_violation [player_M] \<and> [player_M] \<noteq> [] \<and>
   length (sortPlayers ordinal_compare [player_M]) = 1 \<and>
   main_sort ordinal_compare [player_M] = Inr (sortPlayers ordinal_compare [player_M]) \<and>
   (\<exists>r. rank (sortPlayers ordinal_compare [player_M] ! 0) = Some r \<and> 1 \<le> r)"
proof -
  have v: "contract_violation [player_M]" by code_simp
  have ne: "[player_M] \<noteq> []" by simp
  note inst = sortPlayers_never_rejects [of ordinal_compare "[player_M]"]
  have len: "length (sortPlayers ordinal_compare [player_M]) = 1" using inst by simp
  then have "sortPlayers ordinal_compare [player_M] ! 0 \<in> set (sortPlayers ordinal_compare [player_M])"
    by (intro nth_mem) simp
  then have r: "\<exists>r. rank (sortPlayers ordinal_compare [player_M] ! 0) = Some r \<and> 1 \<le> r"
    using inst by blast
  have m: "main_sort ordinal_compare [player_M] = Inr (sortPlayers ordinal_compare [player_M])"
    using inst ne by blast
  from v ne len m r show ?thesis by blast
qed

end
